theory Spec2Isabelle
  imports Main
begin

section \<open>The goroutine pool of groutine\_pool/pool.go\<close>

text \<open>
  The pool is concurrent: callers of \<open>Execute\<close> and \<open>Close\<close> and the worker goroutines
  interleave. The embedding is a labelled transition system. Every goroutine is a small
  record holding the place it has reached in its function; an event names one goroutine
  and the atomic action it takes next (a channel operation, a call on the wait group, a
  deferred call), and \<open>step\<close> computes the pool after that action, \<open>None\<close> when the
  action cannot happen in that state (the goroutine is elsewhere, or it is blocked).
  A run is a list of events; everything proved below holds for every run, that is for
  every schedule.
\<close>

subsection \<open>Panic values, tasks and the idle timer\<close>

text \<open>The value carried by a panic: the runtime's own faults and those raised by a task.\<close>

datatype payload =
    NilValue              \<comment> \<open>\<open>panic(nil)\<close>: the payload for which \<open>recover()\<close> yields nil\<close>
  | SendOnClosed          \<comment> \<open>send on closed channel\<close>
  | CloseOfClosed         \<comment> \<open>close of closed channel\<close>
  | NilDeref              \<comment> \<open>call of a nil func\<close>
  | NegativeCounter       \<comment> \<open>sync: negative WaitGroup counter\<close>
  | User nat              \<comment> \<open>\<open>panic(v)\<close> with any other value\<close>

text \<open>
  \<open>NilValue\<close> is what \<open>panic(nil)\<close> carries before Go 1.21, where \<open>recover()\<close> stops
  the panic and returns nil. From Go 1.21 on the runtime turns \<open>panic(nil)\<close> into a
  panic with a \<open>*runtime.PanicNilError\<close>, which is a payload like any other.
\<close>

text \<open>
  A task is a \<open>func(context.Context)\<close>, possibly nil. Of a body the pool sees only how
  it ends: it returns (\<open>None\<close>) or panics with a payload. A body that has not ended yet
  is a worker staying in its body.
\<close>

datatype task = NilFunc | Fn "payload option"

text \<open>
  \<open>time.Timer\<close> as the loop uses it: \<open>running\<close> says the timer is armed, \<open>expired\<close>
  that its channel \<open>C\<close> (buffer of one) holds the expiry. Durations are abstracted: an
  armed timer may expire at any moment (event \<open>Fire\<close>).
\<close>

datatype timer = Timer (running: bool) (expired: bool)

definition NewTimer :: timer where
  "NewTimer = Timer True False"

definition timer_fire :: "timer \<Rightarrow> timer option" where
  "timer_fire t = (if running t then Some (Timer False True) else None)"

text \<open>\<open>Stop\<close> reports whether the call stopped an armed timer; it leaves the channel alone.\<close>

definition timer_Stop :: "timer \<Rightarrow> bool \<times> timer" where
  "timer_Stop t = (running t, Timer False (expired t))"

text \<open>\<open><-timer.C\<close>: \<open>None\<close> when the channel is empty and the receive blocks.\<close>

definition timer_recv :: "timer \<Rightarrow> timer option" where
  "timer_recv t = (if expired t then Some (Timer (running t) False) else None)"

definition timer_Reset :: "timer \<Rightarrow> timer" where
  "timer_Reset t = Timer True (expired t)"

text \<open>
  Lines 74 to 77 of \<open>loop\<close>:
  \<^verbatim>\<open>if !timer.Stop() { <-timer.C }; timer.Reset(g.idleTimeout)\<close>
\<close>

definition rearm :: "timer \<Rightarrow> timer option" where
  "rearm t =
     (case timer_Stop t of
        (stopped, t1) \<Rightarrow>
          if \<not> stopped
          then (case timer_recv t1 of
                  None \<Rightarrow> None
                | Some t2 \<Rightarrow> Some (timer_Reset t2))
          else Some (timer_Reset t1))"

subsection \<open>Goroutines\<close>

text \<open>A call of \<open>Execute\<close>, by the line it has reached.\<close>

datatype ret = RetPool | RetNil

datatype estage =
    E_Select              \<comment> \<open>at the \<open>select\<close> of line 46\<close>
  | E_Add                 \<comment> \<open>the token is sent; before \<open>g.wait.Add(1)\<close>\<close>
  | E_Go                  \<comment> \<open>before \<open>go g.loop(f)\<close>\<close>
  | E_Returned ret        \<comment> \<open>returned \<open>g\<close>, or nil after a recovered panic\<close>
  | E_Crashed payload     \<comment> \<open>a panic left \<open>Execute\<close>\<close>

record submitter =
  e_stage :: estage
  e_f :: task

text \<open>
  A worker, by the place it has reached in \<open>loop\<close>. The three deferred calls that
  touch the pool are stages of their own and carry the panic in flight, if any.
\<close>

datatype wstage =
    W_Call                        \<comment> \<open>before \<open>f(g.ctx)\<close>, line 64\<close>
  | W_Body                        \<comment> \<open>inside the task body\<close>
  | W_Select                      \<comment> \<open>at the \<open>select\<close> of line 66\<close>
  | W_Drain                       \<comment> \<open>blocked in \<open><-timer.C\<close>, line 75\<close>
  | W_Token "payload option"      \<comment> \<open>before the deferred \<open><-g.tokens\<close>\<close>
  | W_Done "payload option"       \<comment> \<open>before the deferred \<open>g.wait.Done()\<close>\<close>
  | W_Recover "payload option"    \<comment> \<open>before the deferred \<open>g.doRecover()\<close>\<close>
  | W_Exited                      \<comment> \<open>\<open>loop\<close> has returned\<close>
  | W_Crashed payload             \<comment> \<open>a panic left \<open>loop\<close>\<close>

record worker =
  w_stage :: wstage
  w_origin :: nat      \<comment> \<open>the \<open>Execute\<close> call the current \<open>f\<close> came from\<close>
  w_f :: task
  w_timer :: timer

text \<open>A call of \<open>Close\<close>.\<close>

datatype cstage =
    C_Lock                \<comment> \<open>before \<open>g.Lock()\<close>\<close>
  | C_Guard               \<comment> \<open>holding the mutex, before the test of \<open>g.closed\<close>\<close>
  | C_ClosePending        \<comment> \<open>before \<open>close(g.pending)\<close>\<close>
  | C_CloseTokens         \<comment> \<open>before \<open>close(g.tokens)\<close>\<close>
  | C_Cancel              \<comment> \<open>before \<open>if !grace { g.cancel() }\<close>\<close>
  | C_Wait                \<comment> \<open>in \<open>g.wait.Wait()\<close>\<close>
  | C_Returned bool       \<comment> \<open>returned; \<open>True\<close> after the shutdown, \<open>False\<close> at the guard\<close>
  | C_Crashed payload     \<comment> \<open>a panic left \<open>Close\<close>\<close>

record closer =
  c_stage :: cstage
  c_grace :: bool

subsection \<open>The pool\<close>

text \<open>
  The struct \<open>Pool\<close>. The channel \<open>pending\<close> is unbuffered, so only whether it is
  closed is state; \<open>tokens\<close> is the number of buffered tokens. \<open>recoverFunc\<close> is
  the handler, \<open>None\<close> when it is nil. The handler is the caller's code: applied to a
  payload it says how the call ends, \<open>None\<close> when it returns and \<open>Some q\<close> when it
  panics with \<open>q\<close>; \<open>handled\<close> records the payloads it is called with. The shared
  context \<open>ctx\<close> is represented by \<open>cancels\<close>, the number of calls of \<open>g.cancel\<close>; the
  root context given with \<open>WithCtx\<close> is not modelled. The goroutines and the logs
  \<open>started\<close>, \<open>finished\<close> (the \<open>Execute\<close> calls whose task body has begun, has ended) are
  the model's own.
\<close>

record pool =
  concurrent :: int
  idleTimeout :: int
  recoverFunc :: "(payload \<Rightarrow> payload option) option"
  pending_closed :: bool
  tokens :: nat
  tokens_closed :: bool
  closed :: bool
  locked :: bool
  cancels :: nat
  wait :: int
  subs :: "submitter list"
  workers :: "worker list"
  closers :: "closer list"
  started :: "nat list"
  finished :: "nat list"
  handled :: "payload list"

datatype PoolOpt =
    WithCtx
  | WithConcurrent int
  | WithIdleTimeout int
  | WithRecover "(payload \<Rightarrow> payload option) option"    \<comment> \<open>\<open>None\<close> for a nil \<open>f\<close>\<close>

fun apply_opt :: "PoolOpt \<Rightarrow> pool \<Rightarrow> pool" where
  "apply_opt WithCtx g = g"
| "apply_opt (WithConcurrent n) g = g\<lparr>concurrent := n\<rparr>"
| "apply_opt (WithIdleTimeout d) g = g\<lparr>idleTimeout := d\<rparr>"
| "apply_opt (WithRecover h) g = g\<lparr>recoverFunc := h\<rparr>"

definition default_pool :: pool where
  "default_pool =
     \<lparr>concurrent = 10, idleTimeout = 1000000000, recoverFunc = None,
      pending_closed = False, tokens = 0, tokens_closed = False, closed = False,
      locked = False, cancels = 0, wait = 0, subs = [], workers = [], closers = [],
      started = [], finished = [], handled = []\<rparr>"

text \<open>
  \<open>NewPool\<close>: the options in order over the defaults, then
  \<open>make(chan struct{}, pool.concurrent)\<close>, which panics on a negative size.
\<close>

definition NewPool :: "PoolOpt list \<Rightarrow> pool option" where
  "NewPool opts =
     (let g = fold apply_opt opts default_pool
      in if concurrent g < 0 then None else Some g)"

text \<open>
  \<open>doRecover\<close>, run as a deferred call with the panic in flight \<open>r\<close>:
  \<^verbatim>\<open>if r := recover(); r != nil && g.recoverFunc != nil { g.recoverFunc(r) }\<close>
  \<open>recover()\<close> stops the panic and yields its payload. The handler is called when the
  payload is not nil and a handler is set; a panic of the handler is then in flight and
  leaves the function that deferred \<open>doRecover\<close>. The result is the panic in flight
  afterwards and the log of the handler's calls.
\<close>

definition doRecover ::
  "(payload \<Rightarrow> payload option) option \<Rightarrow> payload option \<Rightarrow> payload list
     \<Rightarrow> payload option \<times> payload list" where
  "doRecover h r log =
     (case r of
        None \<Rightarrow> (None, log)
      | Some p \<Rightarrow>
          if p \<noteq> NilValue
          then (case h of
                  None \<Rightarrow> (None, log)
                | Some f \<Rightarrow> (f p, log @ [p]))
          else (None, log))"

subsection \<open>Events\<close>

datatype event =
    CallExecute task      \<comment> \<open>a goroutine calls \<open>g.Execute(f)\<close>\<close>
  | Handoff nat nat       \<comment> \<open>\<open>g.pending <- f\<close> meets \<open>f = <-g.pending\<close> of a worker\<close>
  | Acquire nat           \<comment> \<open>\<open>g.tokens <- struct{}{}\<close> succeeds\<close>
  | SendPanic nat         \<comment> \<open>the \<open>select\<close> of \<open>Execute\<close> sends on a closed channel\<close>
  | WgAdd nat             \<comment> \<open>\<open>g.wait.Add(1)\<close>\<close>
  | Go nat                \<comment> \<open>\<open>go g.loop(f)\<close>, and \<open>Execute\<close> returns\<close>
  | Invoke nat            \<comment> \<open>a worker calls \<open>f(g.ctx)\<close>\<close>
  | Finish nat            \<comment> \<open>the task body ends\<close>
  | Fire nat              \<comment> \<open>a worker's idle timer expires\<close>
  | Timeout nat           \<comment> \<open>\<open>case <-timer.C\<close>\<close>
  | RecvClosed nat        \<comment> \<open>\<open>case f = <-g.pending\<close> on the closed channel\<close>
  | Release nat           \<comment> \<open>deferred \<open><-g.tokens\<close>\<close>
  | WgDone nat            \<comment> \<open>deferred \<open>g.wait.Done()\<close>\<close>
  | Recover nat           \<comment> \<open>deferred \<open>g.doRecover()\<close> of \<open>loop\<close>\<close>
  | CallClose bool        \<comment> \<open>a goroutine calls \<open>g.Close(grace)\<close>\<close>
  | Lock nat              \<comment> \<open>\<open>g.Lock()\<close>\<close>
  | Guard nat             \<comment> \<open>lines 84 to 89\<close>
  | ClosePending nat      \<comment> \<open>\<open>close(g.pending)\<close>\<close>
  | CloseTokens nat       \<comment> \<open>\<open>close(g.tokens)\<close>\<close>
  | Cancel nat            \<comment> \<open>lines 94 to 96\<close>
  | WaitReturn nat        \<comment> \<open>\<open>g.wait.Wait()\<close> returns\<close>

definition set_sub :: "nat \<Rightarrow> estage \<Rightarrow> pool \<Rightarrow> pool" where
  "set_sub i st g = g\<lparr>subs := (subs g)[i := (subs g ! i)\<lparr>e_stage := st\<rparr>]\<rparr>"

definition set_worker :: "nat \<Rightarrow> worker \<Rightarrow> pool \<Rightarrow> pool" where
  "set_worker w x g = g\<lparr>workers := (workers g)[w := x]\<rparr>"

definition set_closer :: "nat \<Rightarrow> cstage \<Rightarrow> pool \<Rightarrow> pool" where
  "set_closer c st g = g\<lparr>closers := (closers g)[c := (closers g ! c)\<lparr>c_stage := st\<rparr>]\<rparr>"

definition sub_at :: "nat \<Rightarrow> estage \<Rightarrow> pool \<Rightarrow> bool" where
  "sub_at i st g = (i < length (subs g) \<and> e_stage (subs g ! i) = st)"

definition worker_at :: "nat \<Rightarrow> wstage \<Rightarrow> pool \<Rightarrow> bool" where
  "worker_at w st g = (w < length (workers g) \<and> w_stage (workers g ! w) = st)"

definition closer_at :: "nat \<Rightarrow> cstage \<Rightarrow> pool \<Rightarrow> bool" where
  "closer_at c st g = (c < length (closers g) \<and> c_stage (closers g ! c) = st)"

text \<open>
  Leaving the loop body: the deferred \<open>timer.Stop()\<close> runs first (it touches only
  the worker's own timer), then the worker stands before the deferred \<open><-g.tokens\<close>.
\<close>

definition unwind :: "payload option \<Rightarrow> worker \<Rightarrow> worker" where
  "unwind r x = x\<lparr>w_stage := W_Token r, w_timer := snd (timer_Stop (w_timer x))\<rparr>"

subsubsection \<open>Execute\<close>

definition ev_CallExecute :: "task \<Rightarrow> pool \<Rightarrow> pool option" where
  "ev_CallExecute f g = Some (g\<lparr>subs := subs g @ [\<lparr>e_stage = E_Select, e_f = f\<rparr>]\<rparr>)"

text \<open>
  \<open>case g.pending <- f\<close> completes with a worker that is receiving in its own
  \<open>select\<close>. \<open>Execute\<close> returns \<open>g\<close>. The worker leaves on a nil \<open>f\<close> (line 70),
  otherwise re-arms its timer and goes round the loop with the new \<open>f\<close>.
\<close>

definition ev_Handoff :: "nat \<Rightarrow> nat \<Rightarrow> pool \<Rightarrow> pool option" where
  "ev_Handoff i w g =
     (if sub_at i E_Select g \<and> worker_at w W_Select g \<and> \<not> pending_closed g
      then let f = e_f (subs g ! i);
               x = workers g ! w;
               x' = (if f = NilFunc then unwind None x
                     else (case rearm (w_timer x) of
                             None \<Rightarrow> x\<lparr>w_stage := W_Drain, w_origin := i, w_f := f\<rparr>
                           | Some t \<Rightarrow> x\<lparr>w_stage := W_Call, w_origin := i, w_f := f, w_timer := t\<rparr>))
           in Some (set_worker w x' (set_sub i (E_Returned RetPool) g))
      else None)"

definition ev_Acquire :: "nat \<Rightarrow> pool \<Rightarrow> pool option" where
  "ev_Acquire i g =
     (if sub_at i E_Select g \<and> \<not> tokens_closed g \<and> int (tokens g) < concurrent g
      then Some (set_sub i E_Add (g\<lparr>tokens := tokens g + 1\<rparr>))
      else None)"

text \<open>
  A send on a closed channel panics; the \<open>select\<close> may pick either send. The deferred
  \<open>doRecover\<close> of line 45 runs, and a recovered \<open>Execute\<close> returns the zero value of
  its unnamed result, nil.
\<close>

definition ev_SendPanic :: "nat \<Rightarrow> pool \<Rightarrow> pool option" where
  "ev_SendPanic i g =
     (if sub_at i E_Select g \<and> (pending_closed g \<or> tokens_closed g)
      then (case doRecover (recoverFunc g) (Some SendOnClosed) (handled g) of
              (r, log) \<Rightarrow>
                Some (set_sub i (case r of None \<Rightarrow> E_Returned RetNil | Some p \<Rightarrow> E_Crashed p)
                        (g\<lparr>handled := log\<rparr>)))
      else None)"

definition ev_WgAdd :: "nat \<Rightarrow> pool \<Rightarrow> pool option" where
  "ev_WgAdd i g =
     (if sub_at i E_Add g
      then Some (set_sub i E_Go (g\<lparr>wait := wait g + 1\<rparr>))
      else None)"

text \<open>
  The new goroutine registers its deferred calls and creates its timer before it
  reaches line 64; nothing of that is visible to another goroutine.
\<close>

definition ev_Go :: "nat \<Rightarrow> pool \<Rightarrow> pool option" where
  "ev_Go i g =
     (if sub_at i E_Go g
      then Some (set_sub i (E_Returned RetPool)
                   (g\<lparr>workers := workers g @
                        [\<lparr>w_stage = W_Call, w_origin = i, w_f = e_f (subs g ! i),
                          w_timer = NewTimer\<rparr>]\<rparr>))
      else None)"

subsubsection \<open>loop\<close>

text \<open>Calling a nil func panics before any body runs.\<close>

definition ev_Invoke :: "nat \<Rightarrow> pool \<Rightarrow> pool option" where
  "ev_Invoke w g =
     (if worker_at w W_Call g
      then let x = workers g ! w
           in (case w_f x of
                 NilFunc \<Rightarrow> Some (set_worker w (unwind (Some NilDeref) x) g)
               | Fn b \<Rightarrow>
                   Some (set_worker w (x\<lparr>w_stage := W_Body\<rparr>)
                           (g\<lparr>started := started g @ [w_origin x]\<rparr>)))
      else None)"

definition ev_Finish :: "nat \<Rightarrow> pool \<Rightarrow> pool option" where
  "ev_Finish w g =
     (if worker_at w W_Body g
      then let x = workers g ! w;
               g' = g\<lparr>finished := finished g @ [w_origin x]\<rparr>
           in (case w_f x of
                 NilFunc \<Rightarrow> None
               | Fn None \<Rightarrow> Some (set_worker w (x\<lparr>w_stage := W_Select\<rparr>) g')
               | Fn (Some p) \<Rightarrow> Some (set_worker w (unwind (Some p) x) g'))
      else None)"

definition ev_Fire :: "nat \<Rightarrow> pool \<Rightarrow> pool option" where
  "ev_Fire w g =
     (if w < length (workers g)
      then (case timer_fire (w_timer (workers g ! w)) of
              None \<Rightarrow> None
            | Some t \<Rightarrow> Some (set_worker w ((workers g ! w)\<lparr>w_timer := t\<rparr>) g))
      else None)"

definition ev_Timeout :: "nat \<Rightarrow> pool \<Rightarrow> pool option" where
  "ev_Timeout w g =
     (if worker_at w W_Select g
      then (case timer_recv (w_timer (workers g ! w)) of
              None \<Rightarrow> None
            | Some t \<Rightarrow> Some (set_worker w (unwind None ((workers g ! w)\<lparr>w_timer := t\<rparr>)) g))
      else None)"

text \<open>A receive on the closed \<open>pending\<close> yields nil, and the worker returns (line 70).\<close>

definition ev_RecvClosed :: "nat \<Rightarrow> pool \<Rightarrow> pool option" where
  "ev_RecvClosed w g =
     (if worker_at w W_Select g \<and> pending_closed g
      then Some (set_worker w (unwind None (workers g ! w)) g)
      else None)"

text \<open>
  The deferred \<open><-g.tokens\<close> takes a buffered token; on an empty channel it yields at
  once when the channel is closed and blocks otherwise.
\<close>

definition ev_Release :: "nat \<Rightarrow> pool \<Rightarrow> pool option" where
  "ev_Release w g =
     (if w < length (workers g)
      then (case w_stage (workers g ! w) of
              W_Token r \<Rightarrow>
                if 0 < tokens g \<or> tokens_closed g
                then Some (set_worker w ((workers g ! w)\<lparr>w_stage := W_Done r\<rparr>)
                             (g\<lparr>tokens := tokens g - 1\<rparr>))
                else None
            | _ \<Rightarrow> None)
      else None)"

text \<open>\<open>Done\<close> panics when it takes the counter below zero.\<close>

definition ev_WgDone :: "nat \<Rightarrow> pool \<Rightarrow> pool option" where
  "ev_WgDone w g =
     (if w < length (workers g)
      then (case w_stage (workers g ! w) of
              W_Done r \<Rightarrow>
                Some (set_worker w
                        ((workers g ! w)\<lparr>w_stage :=
                            W_Recover (if wait g - 1 < 0 then Some NegativeCounter else r)\<rparr>)
                        (g\<lparr>wait := wait g - 1\<rparr>))
            | _ \<Rightarrow> None)
      else None)"

definition ev_Recover :: "nat \<Rightarrow> pool \<Rightarrow> pool option" where
  "ev_Recover w g =
     (if w < length (workers g)
      then (case w_stage (workers g ! w) of
              W_Recover r \<Rightarrow>
                (case doRecover (recoverFunc g) r (handled g) of
                   (r', log) \<Rightarrow>
                     Some (set_worker w
                             ((workers g ! w)\<lparr>w_stage :=
                                 (case r' of None \<Rightarrow> W_Exited | Some p \<Rightarrow> W_Crashed p)\<rparr>)
                             (g\<lparr>handled := log\<rparr>)))
            | _ \<Rightarrow> None)
      else None)"

subsubsection \<open>Close\<close>

definition ev_CallClose :: "bool \<Rightarrow> pool \<Rightarrow> pool option" where
  "ev_CallClose grace g =
     Some (g\<lparr>closers := closers g @ [\<lparr>c_stage = C_Lock, c_grace = grace\<rparr>]\<rparr>)"

definition ev_Lock :: "nat \<Rightarrow> pool \<Rightarrow> pool option" where
  "ev_Lock c g =
     (if closer_at c C_Lock g \<and> \<not> locked g
      then Some (set_closer c C_Guard (g\<lparr>locked := True\<rparr>))
      else None)"

definition ev_Guard :: "nat \<Rightarrow> pool \<Rightarrow> pool option" where
  "ev_Guard c g =
     (if closer_at c C_Guard g
      then if closed g
           then Some (set_closer c (C_Returned False) (g\<lparr>locked := False\<rparr>))
           else Some (set_closer c C_ClosePending (g\<lparr>closed := True, locked := False\<rparr>))
      else None)"

text \<open>Closing a closed channel panics, and \<open>Close\<close> has no deferred recovery.\<close>

definition ev_ClosePending :: "nat \<Rightarrow> pool \<Rightarrow> pool option" where
  "ev_ClosePending c g =
     (if closer_at c C_ClosePending g
      then if pending_closed g
           then Some (set_closer c (C_Crashed CloseOfClosed) g)
           else Some (set_closer c C_CloseTokens (g\<lparr>pending_closed := True\<rparr>))
      else None)"

definition ev_CloseTokens :: "nat \<Rightarrow> pool \<Rightarrow> pool option" where
  "ev_CloseTokens c g =
     (if closer_at c C_CloseTokens g
      then if tokens_closed g
           then Some (set_closer c (C_Crashed CloseOfClosed) g)
           else Some (set_closer c C_Cancel (g\<lparr>tokens_closed := True\<rparr>))
      else None)"

definition ev_Cancel :: "nat \<Rightarrow> pool \<Rightarrow> pool option" where
  "ev_Cancel c g =
     (if closer_at c C_Cancel g
      then Some (set_closer c C_Wait
                   (if \<not> c_grace (closers g ! c) then g\<lparr>cancels := cancels g + 1\<rparr> else g))
      else None)"

definition ev_WaitReturn :: "nat \<Rightarrow> pool \<Rightarrow> pool option" where
  "ev_WaitReturn c g =
     (if closer_at c C_Wait g \<and> wait g = 0
      then Some (set_closer c (C_Returned True) g)
      else None)"

subsubsection \<open>Steps and runs\<close>

fun step :: "event \<Rightarrow> pool \<Rightarrow> pool option" where
  "step (CallExecute f) g = ev_CallExecute f g"
| "step (Handoff i w) g = ev_Handoff i w g"
| "step (Acquire i) g = ev_Acquire i g"
| "step (SendPanic i) g = ev_SendPanic i g"
| "step (WgAdd i) g = ev_WgAdd i g"
| "step (Go i) g = ev_Go i g"
| "step (Invoke w) g = ev_Invoke w g"
| "step (Finish w) g = ev_Finish w g"
| "step (Fire w) g = ev_Fire w g"
| "step (Timeout w) g = ev_Timeout w g"
| "step (RecvClosed w) g = ev_RecvClosed w g"
| "step (Release w) g = ev_Release w g"
| "step (WgDone w) g = ev_WgDone w g"
| "step (Recover w) g = ev_Recover w g"
| "step (CallClose grace) g = ev_CallClose grace g"
| "step (Lock c) g = ev_Lock c g"
| "step (Guard c) g = ev_Guard c g"
| "step (ClosePending c) g = ev_ClosePending c g"
| "step (CloseTokens c) g = ev_CloseTokens c g"
| "step (Cancel c) g = ev_Cancel c g"
| "step (WaitReturn c) g = ev_WaitReturn c g"

fun run :: "event list \<Rightarrow> pool \<Rightarrow> pool option" where
  "run [] g = Some g"
| "run (e # es) g = (case step e g of None \<Rightarrow> None | Some g' \<Rightarrow> run es g')"

subsection \<open>Counting goroutines, and the invariants of the pool\<close>

text \<open>A pool built by \<open>NewPool\<close> and then run under a schedule.\<close>

definition run_from :: "PoolOpt list \<Rightarrow> event list \<Rightarrow> pool option" where
  "run_from opts es = (case NewPool opts of None \<Rightarrow> None | Some g \<Rightarrow> run es g)"

text \<open>
  The number of goroutines of a list that are in a given class of stages, as an integer:
  the invariants below are equations between such numbers and the pool's counters.
\<close>

definition cnt :: "('a \<Rightarrow> bool) \<Rightarrow> 'a list \<Rightarrow> int" where
  "cnt P xs = int (length (filter P xs))"

text \<open>
  Who accounts for a token in the channel: an \<open>Execute\<close> call from its send to its
  \<open>go\<close> statement, and a worker from its creation to its deferred \<open><-g.tokens\<close>.
\<close>

fun e_holds :: "estage \<Rightarrow> bool" where
  "e_holds E_Add = True"
| "e_holds E_Go = True"
| "e_holds _ = False"

fun w_holds :: "wstage \<Rightarrow> bool" where
  "w_holds W_Call = True"
| "w_holds W_Body = True"
| "w_holds W_Select = True"
| "w_holds W_Drain = True"
| "w_holds (W_Token r) = True"
| "w_holds _ = False"

definition token_holders :: "pool \<Rightarrow> int" where
  "token_holders g =
     cnt (\<lambda>x. e_holds (e_stage x)) (subs g) + cnt (\<lambda>x. w_holds (w_stage x)) (workers g)"

definition inv_tokens :: "pool \<Rightarrow> bool" where
  "inv_tokens g = (int (tokens g) = token_holders g \<and> int (tokens g) \<le> concurrent g)"

text \<open>
  Who accounts for one unit of the wait counter: an \<open>Execute\<close> call between \<open>Add(1)\<close>
  and its \<open>go\<close> statement, and a worker until its deferred \<open>Done\<close>.
\<close>

fun w_counted :: "wstage \<Rightarrow> bool" where
  "w_counted (W_Done r) = True"
| "w_counted st = w_holds st"

definition inv_wait :: "pool \<Rightarrow> bool" where
  "inv_wait g =
     (wait g = cnt (\<lambda>x. e_stage x = E_Go) (subs g) + cnt (\<lambda>x. w_counted (w_stage x)) (workers g))"

text \<open>
  Inside its loop a worker's timer is armed with an empty channel, or has expired with
  the expiry in the channel; so the drain of line 75 never blocks.
\<close>

fun w_looping :: "wstage \<Rightarrow> bool" where
  "w_looping W_Call = True"
| "w_looping W_Body = True"
| "w_looping W_Select = True"
| "w_looping _ = False"

definition inv_timer :: "pool \<Rightarrow> bool" where
  "inv_timer g =
     (\<forall>w < length (workers g).
        (w_looping (w_stage (workers g ! w)) \<longrightarrow>
           running (w_timer (workers g ! w)) \<noteq> expired (w_timer (workers g ! w))) \<and>
        w_stage (workers g ! w) \<noteq> W_Drain)"

text \<open>
  The calls of \<open>Close\<close>: the mutex is held by exactly the call at the guard; the flag
  \<open>closed\<close> and the two closed channels each say how far the one call that passed the
  guard has come; \<open>g.cancel\<close> was called once for each call past lines 94 to 96 that is
  not graceful; no call has panicked.
\<close>

fun c_past :: "cstage \<Rightarrow> bool" where
  "c_past C_Wait = True"
| "c_past (C_Returned b) = b"
| "c_past _ = False"

fun c_crashed :: "cstage \<Rightarrow> bool" where
  "c_crashed (C_Crashed p) = True"
| "c_crashed _ = False"

definition inv_close :: "pool \<Rightarrow> bool" where
  "inv_close g =
     (cnt (\<lambda>x. c_stage x = C_Guard) (closers g) = of_bool (locked g) \<and>
      cnt (\<lambda>x. c_stage x = C_ClosePending) (closers g) + cnt (\<lambda>x. c_stage x = C_CloseTokens) (closers g) +
        cnt (\<lambda>x. c_stage x = C_Cancel) (closers g) + cnt (\<lambda>x. c_past (c_stage x)) (closers g)
        = of_bool (closed g) \<and>
      cnt (\<lambda>x. c_stage x = C_CloseTokens) (closers g) +
        cnt (\<lambda>x. c_stage x = C_Cancel) (closers g) + cnt (\<lambda>x. c_past (c_stage x)) (closers g)
        = of_bool (pending_closed g) \<and>
      cnt (\<lambda>x. c_stage x = C_Cancel) (closers g) + cnt (\<lambda>x. c_past (c_stage x)) (closers g)
        = of_bool (tokens_closed g) \<and>
      int (cancels g) = cnt (\<lambda>x. c_past (c_stage x) \<and> \<not> c_grace x) (closers g) \<and>
      cnt (\<lambda>x. c_crashed (c_stage x)) (closers g) = 0)"

fun close_event :: "event \<Rightarrow> bool" where
  "close_event (CallClose b) = True"
| "close_event (Lock c) = True"
| "close_event (Guard c) = True"
| "close_event (ClosePending c) = True"
| "close_event (CloseTokens c) = True"
| "close_event (Cancel c) = True"
| "close_event (WaitReturn c) = True"
| "close_event _ = False"

text \<open>
  Tasks. The \<open>Execute\<close> call number \<open>i\<close> is accepted when it has returned the pool with
  a func that is not nil. \<open>once\<close>: the starts of its body, plus the workers standing
  before the call \<open>f(g.ctx)\<close> with it, are one if it is accepted and none otherwise.
  \<open>body_ok\<close>: the bodies started are those ended plus those running.
\<close>

definition accepted :: "nat \<Rightarrow> pool \<Rightarrow> bool" where
  "accepted i g = (sub_at i (E_Returned RetPool) g \<and> e_f (subs g ! i) \<noteq> NilFunc)"

definition holding :: "nat \<Rightarrow> pool \<Rightarrow> int" where
  "holding i g = cnt (\<lambda>x. w_stage x = W_Call \<and> w_origin x = i \<and> w_f x \<noteq> NilFunc) (workers g)"

definition in_body :: "nat \<Rightarrow> pool \<Rightarrow> int" where
  "in_body i g = cnt (\<lambda>x. w_stage x = W_Body \<and> w_origin x = i) (workers g)"

definition once :: "nat \<Rightarrow> pool \<Rightarrow> bool" where
  "once i g = (int (count_list (started g) i) + holding i g = of_bool (accepted i g))"

definition body_ok :: "nat \<Rightarrow> pool \<Rightarrow> bool" where
  "body_ok i g = (int (count_list (started g) i) = int (count_list (finished g) i) + in_body i g)"

text \<open>
  A panic leaves \<open>Execute\<close> or \<open>loop\<close> only as a panic of the handler: a crashed call
  or worker carries what the configured handler panicked with.
\<close>

definition inv_crash :: "pool \<Rightarrow> bool" where
  "inv_crash g =
     ((\<forall>i < length (subs g). \<forall>q. e_stage (subs g ! i) = E_Crashed q \<longrightarrow>
         (case recoverFunc g of None \<Rightarrow> False | Some h \<Rightarrow> h SendOnClosed = Some q)) \<and>
      (\<forall>w < length (workers g). \<forall>q. w_stage (workers g ! w) = W_Crashed q \<longrightarrow>
         (case recoverFunc g of None \<Rightarrow> False | Some h \<Rightarrow> \<exists>p. p \<noteq> NilValue \<and> h p = Some q)))"

definition pool_inv :: "pool \<Rightarrow> bool" where
  "pool_inv g =
     (inv_tokens g \<and> inv_wait g \<and> inv_timer g \<and> inv_close g \<and> inv_crash g \<and>
      (\<forall>k. once k g) \<and> (\<forall>k. body_ok k g))"

text \<open>
  Goroutines counted in the properties proved below: \<open>Execute\<close> calls between their
  token and their \<open>go\<close> statement; workers that hold a token, from their creation to
  their deferred \<open><-g.tokens\<close>; workers inside a task body; workers that have not yet
  called \<open>Done\<close>; and the worker goroutines alive, those whose \<open>loop\<close> has not
  returned, which still includes a worker in its deferred \<open>Done\<close> or \<open>doRecover\<close>.
\<close>

definition spawning :: "pool \<Rightarrow> int" where
  "spawning g = cnt (\<lambda>x. e_holds (e_stage x)) (subs g)"

definition holders :: "pool \<Rightarrow> int" where
  "holders g = cnt (\<lambda>x. w_holds (w_stage x)) (workers g)"

definition in_bodies :: "pool \<Rightarrow> int" where
  "in_bodies g = cnt (\<lambda>x. w_stage x = W_Body) (workers g)"

definition live_workers :: "pool \<Rightarrow> int" where
  "live_workers g = cnt (\<lambda>x. w_counted (w_stage x)) (workers g)"

text \<open>The \<open>Close\<close> calls that have passed the guard of line 84.\<close>

definition performers :: "pool \<Rightarrow> int" where
  "performers g =
     cnt (\<lambda>x. c_stage x = C_ClosePending) (closers g) +
     cnt (\<lambda>x. c_stage x = C_CloseTokens) (closers g) +
     cnt (\<lambda>x. c_stage x = C_Cancel) (closers g) +
     cnt (\<lambda>x. c_past (c_stage x)) (closers g)"

fun w_returned :: "wstage \<Rightarrow> bool" where
  "w_returned W_Exited = True"
| "w_returned (W_Crashed q) = True"
| "w_returned _ = False"

definition alive :: "pool \<Rightarrow> int" where
  "alive g = cnt (\<lambda>x. \<not> w_returned (w_stage x)) (workers g)"

fun c_performs :: "cstage \<Rightarrow> bool" where
  "c_performs C_ClosePending = True"
| "c_performs C_CloseTokens = True"
| "c_performs C_Cancel = True"
| "c_performs st = c_past st"

text \<open>
  Two handlers: one that only takes note of the payload and returns, one that panics
  again with the payload it is given.
\<close>

definition logging_handler :: "payload \<Rightarrow> payload option" where
  "logging_handler p = None"

definition rethrowing_handler :: "payload \<Rightarrow> payload option" where
  "rethrowing_handler p = Some p"

text \<open>
  Pools reached by short schedules, used to instantiate the theorems; each is the result
  of the run given with it below.
\<close>

definition busy_pool :: pool where
  "busy_pool =
     \<lparr>concurrent = 1, idleTimeout = 1000000000, recoverFunc = None,
      pending_closed = False, tokens = 1, tokens_closed = False, closed = False,
      locked = False, cancels = 0, wait = 1, subs = [\<lparr>e_stage = E_Returned RetPool,
      e_f = Fn None\<rparr>, \<lparr>e_stage = E_Select, e_f = Fn None\<rparr>],
      workers = [\<lparr>w_stage = W_Body, w_origin = 0, w_f = Fn None,
      w_timer = Timer True False\<rparr>], closers = [], started = [0], finished = [],
      handled = []\<rparr>"

definition crowded_pool :: pool where
  "crowded_pool =
     \<lparr>concurrent = 1, idleTimeout = 1000000000, recoverFunc = None,
      pending_closed = False, tokens = 1, tokens_closed = False, closed = False,
      locked = False, cancels = 0, wait = 2, subs = [\<lparr>e_stage = E_Returned RetPool,
      e_f = Fn None\<rparr>, \<lparr>e_stage = E_Returned RetPool, e_f = Fn None\<rparr>],
      workers = [\<lparr>w_stage = W_Done None, w_origin = 0, w_f = Fn None,
      w_timer = Timer False False\<rparr>, \<lparr>w_stage = W_Body, w_origin = 1,
      w_f = Fn None, w_timer = Timer True False\<rparr>], closers = [], started = [0, 1],
      finished = [0], handled = []\<rparr>"

definition idle_pool :: pool where
  "idle_pool =
     \<lparr>concurrent = 1, idleTimeout = 1000000000, recoverFunc = None,
      pending_closed = False, tokens = 1, tokens_closed = False, closed = False,
      locked = False, cancels = 0, wait = 1, subs = [\<lparr>e_stage = E_Returned RetPool,
      e_f = Fn None\<rparr>, \<lparr>e_stage = E_Select, e_f = Fn None\<rparr>],
      workers = [\<lparr>w_stage = W_Select, w_origin = 0, w_f = Fn None,
      w_timer = Timer False True\<rparr>], closers = [], started = [0], finished = [0],
      handled = []\<rparr>"

definition served_pool :: pool where
  "served_pool =
     \<lparr>concurrent = 1, idleTimeout = 1000000000, recoverFunc = None,
      pending_closed = False, tokens = 0, tokens_closed = False, closed = False,
      locked = False, cancels = 0, wait = 0, subs = [\<lparr>e_stage = E_Returned RetPool,
      e_f = Fn None\<rparr>, \<lparr>e_stage = E_Returned RetPool, e_f = Fn None\<rparr>],
      workers = [\<lparr>w_stage = W_Exited, w_origin = 1, w_f = Fn None,
      w_timer = Timer False False\<rparr>], closers = [], started = [0, 1], finished = [0,
      1], handled = []\<rparr>"

definition go_pool :: pool where
  "go_pool =
     \<lparr>concurrent = 1, idleTimeout = 1000000000, recoverFunc = None,
      pending_closed = False, tokens = 1, tokens_closed = False, closed = False,
      locked = False, cancels = 0, wait = 1, subs = [\<lparr>e_stage = E_Go,
      e_f = Fn None\<rparr>], workers = [], closers = [], started = [], finished = [],
      handled = []\<rparr>"

definition dropped_pool :: pool where
  "dropped_pool =
     \<lparr>concurrent = 1, idleTimeout = 1000000000, recoverFunc = None,
      pending_closed = True, tokens = 0, tokens_closed = True, closed = True, locked = False,
      cancels = 0, wait = 0, subs = [\<lparr>e_stage = E_Returned RetPool,
      e_f = Fn None\<rparr>, \<lparr>e_stage = E_Returned RetNil, e_f = Fn None\<rparr>],
      workers = [\<lparr>w_stage = W_Exited, w_origin = 0, w_f = Fn None,
      w_timer = Timer False False\<rparr>], closers = [\<lparr>c_stage = C_Returned True,
      c_grace = True\<rparr>], started = [0], finished = [0], handled = []\<rparr>"

definition panicking_pool :: pool where
  "panicking_pool =
     \<lparr>concurrent = 1, idleTimeout = 1000000000, recoverFunc = Some logging_handler,
      pending_closed = False, tokens = 1, tokens_closed = False, closed = False,
      locked = False, cancels = 0, wait = 1, subs = [\<lparr>e_stage = E_Returned RetPool,
      e_f = Fn (Some (User 7))\<rparr>], workers = [\<lparr>w_stage = W_Body, w_origin = 0,
      w_f = Fn (Some (User 7)), w_timer = Timer True False\<rparr>], closers = [],
      started = [0], finished = [], handled = []\<rparr>"

definition unwinding_pool :: pool where
  "unwinding_pool =
     \<lparr>concurrent = 1, idleTimeout = 1000000000, recoverFunc = Some logging_handler,
      pending_closed = False, tokens = 1, tokens_closed = False, closed = False,
      locked = False, cancels = 0, wait = 1, subs = [\<lparr>e_stage = E_Returned RetPool,
      e_f = Fn (Some (User 7))\<rparr>],
      workers = [\<lparr>w_stage = W_Token (Some (User 7)), w_origin = 0,
      w_f = Fn (Some (User 7)), w_timer = Timer False False\<rparr>], closers = [],
      started = [0], finished = [0], handled = []\<rparr>"

definition exited_pool :: pool where
  "exited_pool =
     \<lparr>concurrent = 1, idleTimeout = 1000000000, recoverFunc = Some logging_handler,
      pending_closed = False, tokens = 0, tokens_closed = False, closed = False,
      locked = False, cancels = 0, wait = 0, subs = [\<lparr>e_stage = E_Returned RetPool,
      e_f = Fn (Some (User 7))\<rparr>], workers = [\<lparr>w_stage = W_Exited, w_origin = 0,
      w_f = Fn (Some (User 7)), w_timer = Timer False False\<rparr>], closers = [],
      started = [0], finished = [0], handled = [User 7]\<rparr>"

definition closing_pool :: pool where
  "closing_pool =
     \<lparr>concurrent = 1, idleTimeout = 1000000000, recoverFunc = None,
      pending_closed = False, tokens = 1, tokens_closed = False, closed = False,
      locked = False, cancels = 0, wait = 1, subs = [\<lparr>e_stage = E_Returned RetPool,
      e_f = Fn None\<rparr>], workers = [\<lparr>w_stage = W_Body, w_origin = 0,
      w_f = Fn None, w_timer = Timer True False\<rparr>],
      closers = [\<lparr>c_stage = C_Lock, c_grace = True\<rparr>], started = [0],
      finished = [], handled = []\<rparr>"

definition waiting_pool :: pool where
  "waiting_pool =
     \<lparr>concurrent = 1, idleTimeout = 1000000000, recoverFunc = None,
      pending_closed = True, tokens = 0, tokens_closed = True, closed = True, locked = False,
      cancels = 0, wait = 0, subs = [\<lparr>e_stage = E_Returned RetPool,
      e_f = Fn None\<rparr>], workers = [\<lparr>w_stage = W_Exited, w_origin = 0,
      w_f = Fn None, w_timer = Timer False False\<rparr>],
      closers = [\<lparr>c_stage = C_Wait, c_grace = True\<rparr>], started = [0],
      finished = [0], handled = []\<rparr>"

definition early_pool :: pool where
  "early_pool =
     \<lparr>concurrent = 1, idleTimeout = 1000000000, recoverFunc = Some logging_handler,
      pending_closed = True, tokens = 0, tokens_closed = True, closed = True, locked = False,
      cancels = 0, wait = 0, subs = [\<lparr>e_stage = E_Returned RetPool,
      e_f = Fn (Some (User 7))\<rparr>],
      workers = [\<lparr>w_stage = W_Recover (Some (User 7)), w_origin = 0,
      w_f = Fn (Some (User 7)), w_timer = Timer False False\<rparr>],
      closers = [\<lparr>c_stage = C_Returned True, c_grace = True\<rparr>], started = [0],
      finished = [0], handled = []\<rparr>"

definition second_close_pool :: pool where
  "second_close_pool =
     \<lparr>concurrent = 1, idleTimeout = 1000000000, recoverFunc = None,
      pending_closed = False, tokens = 1, tokens_closed = False, closed = True,
      locked = False, cancels = 0, wait = 1, subs = [\<lparr>e_stage = E_Returned RetPool,
      e_f = Fn None\<rparr>], workers = [\<lparr>w_stage = W_Body, w_origin = 0,
      w_f = Fn None, w_timer = Timer True False\<rparr>],
      closers = [\<lparr>c_stage = C_ClosePending, c_grace = True\<rparr>,
      \<lparr>c_stage = C_Returned False, c_grace = True\<rparr>], started = [0],
      finished = [], handled = []\<rparr>"

definition forced_pool :: pool where
  "forced_pool =
     \<lparr>concurrent = 10, idleTimeout = 1000000000, recoverFunc = None,
      pending_closed = True, tokens = 0, tokens_closed = True, closed = True, locked = False,
      cancels = 1, wait = 0, subs = [], workers = [],
      closers = [\<lparr>c_stage = C_Returned True, c_grace = False\<rparr>], started = [],
      finished = [], handled = []\<rparr>"

definition graceful_pool :: pool where
  "graceful_pool =
     \<lparr>concurrent = 10, idleTimeout = 1000000000, recoverFunc = None,
      pending_closed = True, tokens = 0, tokens_closed = True, closed = True, locked = False,
      cancels = 0, wait = 0, subs = [], workers = [],
      closers = [\<lparr>c_stage = C_Returned True, c_grace = True\<rparr>], started = [],
      finished = [], handled = []\<rparr>"

definition mixed_pool :: pool where
  "mixed_pool =
     \<lparr>concurrent = 10, idleTimeout = 1000000000, recoverFunc = None,
      pending_closed = True, tokens = 0, tokens_closed = True, closed = True, locked = False,
      cancels = 0, wait = 0, subs = [], workers = [],
      closers = [\<lparr>c_stage = C_Returned True, c_grace = True\<rparr>,
      \<lparr>c_stage = C_Returned False, c_grace = False\<rparr>], started = [],
      finished = [], handled = []\<rparr>"

definition twice_pool :: pool where
  "twice_pool =
     \<lparr>concurrent = 10, idleTimeout = 1000000000, recoverFunc = None,
      pending_closed = True, tokens = 0, tokens_closed = True, closed = True, locked = True,
      cancels = 0, wait = 0, subs = [], workers = [], closers = [\<lparr>c_stage = C_Wait,
      c_grace = True\<rparr>, \<lparr>c_stage = C_Guard, c_grace = False\<rparr>],
      started = [], finished = [], handled = []\<rparr>"



definition idle_nil_pool :: pool where
  "idle_nil_pool =
     \<lparr>concurrent = 1, idleTimeout = 1000000000, recoverFunc = None,
      pending_closed = False, tokens = 1, tokens_closed = False, closed = False,
      locked = False, cancels = 0, wait = 1, subs = [\<lparr>e_stage = E_Returned RetPool,
      e_f = Fn None\<rparr>, \<lparr>e_stage = E_Select, e_f = NilFunc\<rparr>],
      workers = [\<lparr>w_stage = W_Select, w_origin = 0, w_f = Fn None,
      w_timer = Timer True False\<rparr>], closers = [], started = [0], finished = [0],
      handled = []\<rparr>"

section \<open>Invariants\<close>

subsection \<open>Counting\<close>

lemma cnt_Nil [simp]: "cnt P [] = 0"
  by (simp add: cnt_def)

lemma cnt_snoc [simp]: "cnt P (xs @ [x]) = cnt P xs + (if P x then 1 else 0)"
  by (simp add: cnt_def)

lemma cnt_Cons: "cnt P (x # xs) = (if P x then 1 else 0) + cnt P xs"
  by (simp add: cnt_def)

lemma cnt_update:
  "i < length xs \<Longrightarrow>
   cnt P (xs[i := v]) = cnt P xs - (if P (xs ! i) then 1 else 0) + (if P v then 1 else 0)"
proof (induction xs arbitrary: i)
  case Nil
  then show ?case by simp
next
  case (Cons x xs)
  then show ?case by (cases i) (simp_all add: cnt_Cons)
qed

lemma cnt_nonneg [simp]: "0 \<le> cnt P xs"
  by (simp add: cnt_def)

lemma cnt_pos: "i < length xs \<Longrightarrow> P (xs ! i) \<Longrightarrow> 1 \<le> cnt P xs"
proof (induction xs arbitrary: i)
  case Nil
  then show ?case by simp
next
  case (Cons x xs)
  then show ?case by (cases i) (auto simp: cnt_Cons intro: order_trans)
qed

lemma cnt_mono: "(\<And>x. P x \<Longrightarrow> Q x) \<Longrightarrow> cnt P xs \<le> cnt Q xs"
  by (induction xs) (auto simp: cnt_Cons)

lemma cnt_zeroI: "(\<And>x. x \<in> set xs \<Longrightarrow> \<not> P x) \<Longrightarrow> cnt P xs = 0"
  by (induction xs) (auto simp: cnt_Cons)

lemma cnt_strict:
  "i < length xs \<Longrightarrow> Q (xs ! i) \<Longrightarrow> \<not> P (xs ! i) \<Longrightarrow> (\<And>x. P x \<Longrightarrow> Q x)
   \<Longrightarrow> cnt P xs + 1 \<le> cnt Q xs"
proof (induction xs arbitrary: i)
  case Nil
  then show ?case by simp
next
  case (Cons x xs)
  show ?case
  proof (cases i)
    case 0
    with Cons.prems cnt_mono [of P Q xs] show ?thesis
      by (simp add: cnt_Cons)
  next
    case (Suc j)
    with Cons.prems have "cnt P xs + 1 \<le> cnt Q xs"
      by (intro Cons.IH [of j]) simp_all
    with Cons.prems(4) [of x] show ?thesis
      by (auto simp: cnt_Cons)
  qed
qed

subsection \<open>Every step keeps the invariants\<close>

lemmas ev_defs = ev_CallExecute_def ev_Handoff_def ev_Acquire_def ev_SendPanic_def ev_WgAdd_def
  ev_Go_def ev_Invoke_def ev_Finish_def ev_Fire_def ev_Timeout_def ev_RecvClosed_def
  ev_Release_def ev_WgDone_def ev_Recover_def ev_CallClose_def ev_Lock_def ev_Guard_def
  ev_ClosePending_def ev_CloseTokens_def ev_Cancel_def ev_WaitReturn_def

lemmas aux_defs = set_sub_def set_worker_def set_closer_def sub_at_def worker_at_def closer_at_def
  unwind_def doRecover_def

text \<open>
  Tokens and the wait counter. A worker before its deferred receive accounts for a
  token, so the channel is not empty and the receive neither blocks nor yields nothing.
\<close>

lemma inv_tokens_step:
  assumes "inv_tokens g" and "step e g = Some g'"
  shows "inv_tokens g'"
proof (cases e)
  case (Release w)
  show ?thesis
  proof (cases "w < length (workers g) \<and> (\<exists>r. w_stage (workers g ! w) = W_Token r)")
    case True
    then have "1 \<le> cnt (\<lambda>x. w_holds (w_stage x)) (workers g)"
      by (auto intro!: cnt_pos [of w])
    moreover have "0 \<le> cnt (\<lambda>x. e_holds (e_stage x)) (subs g)"
      by simp
    ultimately have pos: "0 < tokens g"
      using assms(1) unfolding inv_tokens_def token_holders_def by linarith
    then have "int (tokens g - Suc 0) = int (tokens g) - 1"
      by simp
    with assms Release True pos show ?thesis
      by (auto simp: inv_tokens_def token_holders_def ev_defs aux_defs cnt_update
               simp del: of_nat_diff split: if_splits)
  next
    case False
    with assms Release show ?thesis
      by (auto simp: ev_defs split: if_splits wstage.splits)
  qed
qed (use assms in \<open>auto simp: inv_tokens_def token_holders_def ev_defs aux_defs cnt_update Let_def
           split: if_splits option.splits task.splits wstage.splits prod.splits\<close>)

lemma inv_wait_step:
  assumes "inv_wait g" and "step e g = Some g'"
  shows "inv_wait g'"
  using assms
  by (cases e)
     (auto simp: inv_wait_def ev_defs aux_defs cnt_update Let_def
           split: if_splits option.splits task.splits wstage.splits prod.splits)

text \<open>
  The timer: at the \<open>select\<close> it is armed or expired, and lines 74 to 77 re-arm it.
\<close>

lemma rearm_ok: "running t \<noteq> expired t \<Longrightarrow> rearm t = Some (Timer True False)"
  by (cases t) (auto simp: rearm_def timer_Stop_def timer_recv_def timer_Reset_def)

lemma inv_timer_step:
  assumes "inv_timer g" and "step e g = Some g'"
  shows "inv_timer g'"
  using assms
  by (cases e)
     (auto simp: inv_timer_def ev_defs aux_defs Let_def nth_list_update nth_append
                 rearm_def timer_Stop_def timer_recv_def timer_Reset_def timer_fire_def NewTimer_def
           split: if_splits option.splits task.splits wstage.splits prod.splits)

text \<open>No step changes the handler; a crash comes from \<open>doRecover\<close> alone.\<close>

lemma step_recoverFunc: "step e g = Some g' \<Longrightarrow> recoverFunc g' = recoverFunc g"
  by (cases e)
     (auto simp: ev_defs aux_defs Let_def
           split: if_splits option.splits task.splits wstage.splits prod.splits)

lemma inv_crash_step:
  assumes "inv_crash g" and "step e g = Some g'"
  shows "inv_crash g'"
proof (cases e)
  case (SendPanic i)
  with assms show ?thesis
    by (auto simp: inv_crash_def ev_SendPanic_def aux_defs nth_list_update
             split: if_splits option.splits prod.splits)
next
  case (Recover w)
  with assms show ?thesis
    by (auto simp: inv_crash_def ev_Recover_def aux_defs nth_list_update
             split: if_splits option.splits wstage.splits prod.splits)
qed (use assms in \<open>auto simp: inv_crash_def ev_defs aux_defs Let_def nth_list_update nth_append
           split: if_splits option.splits task.splits wstage.splits prod.splits\<close>)

text \<open>
  The calls of \<open>Close\<close>, event by event; the other events leave what the invariant
  speaks of untouched.
\<close>

lemma inv_close_frame:
  assumes "closers g' = closers g" "locked g' = locked g" "closed g' = closed g"
    "pending_closed g' = pending_closed g" "tokens_closed g' = tokens_closed g"
    "cancels g' = cancels g"
  shows "inv_close g' = inv_close g"
  by (simp add: inv_close_def assms)

lemma inv_close_CallClose: "inv_close g \<Longrightarrow> ev_CallClose b g = Some g' \<Longrightarrow> inv_close g'"
  by (auto simp: inv_close_def ev_CallClose_def)

lemma inv_close_Lock: "inv_close g \<Longrightarrow> ev_Lock c g = Some g' \<Longrightarrow> inv_close g'"
  by (auto simp: inv_close_def ev_Lock_def set_closer_def closer_at_def cnt_update split: if_splits)

lemma inv_close_Guard:
  assumes "inv_close g" and "ev_Guard c g = Some g'"
  shows "inv_close g'"
proof -
  from assms(2) have at: "c < length (closers g)" "c_stage (closers g ! c) = C_Guard"
    by (auto simp: ev_Guard_def closer_at_def split: if_splits)
  then have one: "1 \<le> cnt (\<lambda>x. c_stage x = C_Guard) (closers g)"
    by (auto intro!: cnt_pos [of c])
  with assms(1) have lk: "locked g"
    unfolding inv_close_def by (cases "locked g"; simp)
  have nn: "0 \<le> cnt (\<lambda>x. c_stage x = C_ClosePending) (closers g)"
    "0 \<le> cnt (\<lambda>x. c_stage x = C_CloseTokens) (closers g)"
    "0 \<le> cnt (\<lambda>x. c_stage x = C_Cancel) (closers g)"
    "0 \<le> cnt (\<lambda>x. c_past (c_stage x)) (closers g)"
    by simp_all
  show ?thesis
  proof (cases "closed g")
    case True
    with assms at lk show ?thesis
      by (auto simp add: inv_close_def ev_Guard_def set_closer_def closer_at_def cnt_update)
  next
    case False
    with assms(1) nn have z: "\<not> pending_closed g" "\<not> tokens_closed g"
      unfolding inv_close_def
      by (cases "pending_closed g"; cases "tokens_closed g"; simp; linarith)+
    from False assms at lk z show ?thesis
      by (auto simp add: inv_close_def ev_Guard_def set_closer_def closer_at_def cnt_update)
  qed
qed

lemma inv_close_ClosePending:
  assumes "inv_close g" and "ev_ClosePending c g = Some g'"
  shows "inv_close g'"
proof -
  from assms(2) have at: "c < length (closers g)" "c_stage (closers g ! c) = C_ClosePending"
    by (auto simp: ev_ClosePending_def closer_at_def split: if_splits)
  then have one: "1 \<le> cnt (\<lambda>x. c_stage x = C_ClosePending) (closers g)"
    by (auto intro!: cnt_pos [of c])
  have nn: "0 \<le> cnt (\<lambda>x. c_stage x = C_CloseTokens) (closers g)"
    "0 \<le> cnt (\<lambda>x. c_stage x = C_Cancel) (closers g)"
    "0 \<le> cnt (\<lambda>x. c_past (c_stage x)) (closers g)"
    by simp_all
  from assms(1) one nn have op: "\<not> pending_closed g"
    unfolding inv_close_def by (cases "closed g"; cases "pending_closed g"; simp)
  with assms at show ?thesis
    by (auto simp add: inv_close_def ev_ClosePending_def set_closer_def closer_at_def cnt_update)
qed

lemma inv_close_CloseTokens:
  assumes "inv_close g" and "ev_CloseTokens c g = Some g'"
  shows "inv_close g'"
proof -
  from assms(2) have at: "c < length (closers g)" "c_stage (closers g ! c) = C_CloseTokens"
    by (auto simp: ev_CloseTokens_def closer_at_def split: if_splits)
  then have one: "1 \<le> cnt (\<lambda>x. c_stage x = C_CloseTokens) (closers g)"
    by (auto intro!: cnt_pos [of c])
  have nn: "0 \<le> cnt (\<lambda>x. c_stage x = C_Cancel) (closers g)"
    "0 \<le> cnt (\<lambda>x. c_past (c_stage x)) (closers g)"
    by simp_all
  from assms(1) one nn have op: "\<not> tokens_closed g"
    unfolding inv_close_def by (cases "pending_closed g"; cases "tokens_closed g"; simp)
  with assms at show ?thesis
    by (auto simp add: inv_close_def ev_CloseTokens_def set_closer_def closer_at_def cnt_update)
qed

lemma inv_close_Cancel: "inv_close g \<Longrightarrow> ev_Cancel c g = Some g' \<Longrightarrow> inv_close g'"
  by (auto simp: inv_close_def ev_Cancel_def set_closer_def closer_at_def cnt_update split: if_splits)

lemma inv_close_WaitReturn: "inv_close g \<Longrightarrow> ev_WaitReturn c g = Some g' \<Longrightarrow> inv_close g'"
  by (auto simp: inv_close_def ev_WaitReturn_def set_closer_def closer_at_def cnt_update split: if_splits)

lemma close_frame:
  assumes "step e g = Some g'" and "\<not> close_event e"
  shows "closers g' = closers g \<and> locked g' = locked g \<and> closed g' = closed g \<and>
         pending_closed g' = pending_closed g \<and> tokens_closed g' = tokens_closed g \<and>
         cancels g' = cancels g"
  using assms
  by (cases e)
     (auto simp: ev_defs aux_defs Let_def
           split: if_splits option.splits task.splits wstage.splits prod.splits)

lemma inv_close_step:
  assumes "inv_close g" and "step e g = Some g'"
  shows "inv_close g'"
proof (cases "close_event e")
  case False
  from close_frame [OF assms(2) False] have "inv_close g' = inv_close g"
    by (intro inv_close_frame) simp_all
  with assms(1) show ?thesis by simp
next
  case True
  then show ?thesis
  proof (cases e)
    case (CallClose b)
    with assms(2) have "ev_CallClose b g = Some g'" by simp
    from inv_close_CallClose [OF assms(1) this] show ?thesis .
  next
    case (Lock c)
    with assms(2) have "ev_Lock c g = Some g'" by simp
    from inv_close_Lock [OF assms(1) this] show ?thesis .
  next
    case (Guard c)
    with assms(2) have "ev_Guard c g = Some g'" by simp
    from inv_close_Guard [OF assms(1) this] show ?thesis .
  next
    case (ClosePending c)
    with assms(2) have "ev_ClosePending c g = Some g'" by simp
    from inv_close_ClosePending [OF assms(1) this] show ?thesis .
  next
    case (CloseTokens c)
    with assms(2) have "ev_CloseTokens c g = Some g'" by simp
    from inv_close_CloseTokens [OF assms(1) this] show ?thesis .
  next
    case (Cancel c)
    with assms(2) have "ev_Cancel c g = Some g'" by simp
    from inv_close_Cancel [OF assms(1) this] show ?thesis .
  next
    case (WaitReturn c)
    with assms(2) have "ev_WaitReturn c g = Some g'" by simp
    from inv_close_WaitReturn [OF assms(1) this] show ?thesis .
  qed simp_all
qed

text \<open>
  Started, running and ended bodies, event by event.
\<close>

lemma body_ok_CallExecute: "body_ok k g \<Longrightarrow> ev_CallExecute f g = Some g' \<Longrightarrow> body_ok k g'"
  by (auto simp: body_ok_def in_body_def ev_CallExecute_def aux_defs cnt_update Let_def
           split: if_splits option.splits task.splits wstage.splits prod.splits)

lemma body_ok_Handoff: "body_ok k g \<Longrightarrow> ev_Handoff i w g = Some g' \<Longrightarrow> body_ok k g'"
  by (auto simp: body_ok_def in_body_def ev_Handoff_def aux_defs cnt_update Let_def
           split: if_splits option.splits task.splits wstage.splits prod.splits)

lemma body_ok_Acquire: "body_ok k g \<Longrightarrow> ev_Acquire i g = Some g' \<Longrightarrow> body_ok k g'"
  by (auto simp: body_ok_def in_body_def ev_Acquire_def aux_defs cnt_update Let_def
           split: if_splits option.splits task.splits wstage.splits prod.splits)

lemma body_ok_SendPanic: "body_ok k g \<Longrightarrow> ev_SendPanic i g = Some g' \<Longrightarrow> body_ok k g'"
  by (auto simp: body_ok_def in_body_def ev_SendPanic_def aux_defs cnt_update Let_def
           split: if_splits option.splits task.splits wstage.splits prod.splits)

lemma body_ok_WgAdd: "body_ok k g \<Longrightarrow> ev_WgAdd i g = Some g' \<Longrightarrow> body_ok k g'"
  by (auto simp: body_ok_def in_body_def ev_WgAdd_def aux_defs cnt_update Let_def
           split: if_splits option.splits task.splits wstage.splits prod.splits)

lemma body_ok_Go: "body_ok k g \<Longrightarrow> ev_Go i g = Some g' \<Longrightarrow> body_ok k g'"
  by (auto simp: body_ok_def in_body_def ev_Go_def aux_defs cnt_update Let_def
           split: if_splits option.splits task.splits wstage.splits prod.splits)

lemma body_ok_Invoke: "body_ok k g \<Longrightarrow> ev_Invoke w g = Some g' \<Longrightarrow> body_ok k g'"
  by (auto simp: body_ok_def in_body_def ev_Invoke_def aux_defs cnt_update Let_def
           split: if_splits option.splits task.splits wstage.splits prod.splits)

lemma body_ok_Finish: "body_ok k g \<Longrightarrow> ev_Finish w g = Some g' \<Longrightarrow> body_ok k g'"
  by (auto simp: body_ok_def in_body_def ev_Finish_def aux_defs cnt_update Let_def
           split: if_splits option.splits task.splits wstage.splits prod.splits)

lemma body_ok_Fire: "body_ok k g \<Longrightarrow> ev_Fire w g = Some g' \<Longrightarrow> body_ok k g'"
  by (auto simp: body_ok_def in_body_def ev_Fire_def aux_defs cnt_update Let_def
           split: if_splits option.splits task.splits wstage.splits prod.splits)

lemma body_ok_Timeout: "body_ok k g \<Longrightarrow> ev_Timeout w g = Some g' \<Longrightarrow> body_ok k g'"
  by (auto simp: body_ok_def in_body_def ev_Timeout_def aux_defs cnt_update Let_def
           split: if_splits option.splits task.splits wstage.splits prod.splits)

lemma body_ok_RecvClosed: "body_ok k g \<Longrightarrow> ev_RecvClosed w g = Some g' \<Longrightarrow> body_ok k g'"
  by (auto simp: body_ok_def in_body_def ev_RecvClosed_def aux_defs cnt_update Let_def
           split: if_splits option.splits task.splits wstage.splits prod.splits)

lemma body_ok_Release: "body_ok k g \<Longrightarrow> ev_Release w g = Some g' \<Longrightarrow> body_ok k g'"
  by (auto simp: body_ok_def in_body_def ev_Release_def aux_defs cnt_update Let_def
           split: if_splits option.splits task.splits wstage.splits prod.splits)

lemma body_ok_WgDone: "body_ok k g \<Longrightarrow> ev_WgDone w g = Some g' \<Longrightarrow> body_ok k g'"
  by (auto simp: body_ok_def in_body_def ev_WgDone_def aux_defs cnt_update Let_def
           split: if_splits option.splits task.splits wstage.splits prod.splits)

lemma body_ok_Recover: "body_ok k g \<Longrightarrow> ev_Recover w g = Some g' \<Longrightarrow> body_ok k g'"
  by (auto simp: body_ok_def in_body_def ev_Recover_def aux_defs cnt_update Let_def
           split: if_splits option.splits task.splits wstage.splits prod.splits)

lemma body_ok_CallClose: "body_ok k g \<Longrightarrow> ev_CallClose b g = Some g' \<Longrightarrow> body_ok k g'"
  by (auto simp: body_ok_def in_body_def ev_CallClose_def aux_defs cnt_update Let_def
           split: if_splits option.splits task.splits wstage.splits prod.splits)

lemma body_ok_Lock: "body_ok k g \<Longrightarrow> ev_Lock c g = Some g' \<Longrightarrow> body_ok k g'"
  by (auto simp: body_ok_def in_body_def ev_Lock_def aux_defs cnt_update Let_def
           split: if_splits option.splits task.splits wstage.splits prod.splits)

lemma body_ok_Guard: "body_ok k g \<Longrightarrow> ev_Guard c g = Some g' \<Longrightarrow> body_ok k g'"
  by (auto simp: body_ok_def in_body_def ev_Guard_def aux_defs cnt_update Let_def
           split: if_splits option.splits task.splits wstage.splits prod.splits)

lemma body_ok_ClosePending: "body_ok k g \<Longrightarrow> ev_ClosePending c g = Some g' \<Longrightarrow> body_ok k g'"
  by (auto simp: body_ok_def in_body_def ev_ClosePending_def aux_defs cnt_update Let_def
           split: if_splits option.splits task.splits wstage.splits prod.splits)

lemma body_ok_CloseTokens: "body_ok k g \<Longrightarrow> ev_CloseTokens c g = Some g' \<Longrightarrow> body_ok k g'"
  by (auto simp: body_ok_def in_body_def ev_CloseTokens_def aux_defs cnt_update Let_def
           split: if_splits option.splits task.splits wstage.splits prod.splits)

lemma body_ok_Cancel: "body_ok k g \<Longrightarrow> ev_Cancel c g = Some g' \<Longrightarrow> body_ok k g'"
  by (auto simp: body_ok_def in_body_def ev_Cancel_def aux_defs cnt_update Let_def
           split: if_splits option.splits task.splits wstage.splits prod.splits)

lemma body_ok_WaitReturn: "body_ok k g \<Longrightarrow> ev_WaitReturn c g = Some g' \<Longrightarrow> body_ok k g'"
  by (auto simp: body_ok_def in_body_def ev_WaitReturn_def aux_defs cnt_update Let_def
           split: if_splits option.splits task.splits wstage.splits prod.splits)

lemma body_ok_step:
  assumes "body_ok k g" and "step e g = Some g'"
  shows "body_ok k g'"
  using assms
  by (cases e)
     (auto intro: body_ok_CallExecute body_ok_Handoff body_ok_Acquire body_ok_SendPanic body_ok_WgAdd body_ok_Go body_ok_Invoke body_ok_Finish body_ok_Fire body_ok_Timeout body_ok_RecvClosed body_ok_Release body_ok_WgDone body_ok_Recover body_ok_CallClose body_ok_Lock body_ok_Guard body_ok_ClosePending body_ok_CloseTokens body_ok_Cancel body_ok_WaitReturn)

text \<open>
  Each accepted task once, event by event. At a handoff the invariant of the timer is
  needed: the worker does not block in the drain with the task in hand.
\<close>

lemma once_Handoff:
  assumes "once k g" and "inv_timer g" and "ev_Handoff i w g = Some g'"
  shows "once k g'"
proof -
  from assms(3) have at: "w < length (workers g)" "w_stage (workers g ! w) = W_Select"
    by (auto simp: ev_Handoff_def worker_at_def split: if_splits)
  with assms(2) have "rearm (w_timer (workers g ! w)) = Some (Timer True False)"
    by (auto simp: inv_timer_def intro!: rearm_ok)
  with assms(1,3) at show ?thesis
    by (auto simp: once_def holding_def accepted_def ev_Handoff_def aux_defs cnt_update Let_def
                   nth_list_update
             split: if_splits)
qed

lemma once_CallExecute: "once k g \<Longrightarrow> ev_CallExecute f g = Some g' \<Longrightarrow> once k g'"
  by (auto simp: once_def holding_def accepted_def ev_CallExecute_def aux_defs cnt_update Let_def
                 nth_list_update nth_append
           split: if_splits option.splits task.splits wstage.splits prod.splits)

lemma once_Acquire: "once k g \<Longrightarrow> ev_Acquire i g = Some g' \<Longrightarrow> once k g'"
  by (auto simp: once_def holding_def accepted_def ev_Acquire_def aux_defs cnt_update Let_def
                 nth_list_update nth_append
           split: if_splits option.splits task.splits wstage.splits prod.splits)

lemma once_SendPanic: "once k g \<Longrightarrow> ev_SendPanic i g = Some g' \<Longrightarrow> once k g'"
  by (auto simp: once_def holding_def accepted_def ev_SendPanic_def aux_defs cnt_update Let_def
                 nth_list_update nth_append
           split: if_splits option.splits task.splits wstage.splits prod.splits)

lemma once_WgAdd: "once k g \<Longrightarrow> ev_WgAdd i g = Some g' \<Longrightarrow> once k g'"
  by (auto simp: once_def holding_def accepted_def ev_WgAdd_def aux_defs cnt_update Let_def
                 nth_list_update nth_append
           split: if_splits option.splits task.splits wstage.splits prod.splits)

lemma once_Go: "once k g \<Longrightarrow> ev_Go i g = Some g' \<Longrightarrow> once k g'"
  by (auto simp: once_def holding_def accepted_def ev_Go_def aux_defs cnt_update Let_def
                 nth_list_update nth_append
           split: if_splits option.splits task.splits wstage.splits prod.splits)

lemma once_Invoke: "once k g \<Longrightarrow> ev_Invoke w g = Some g' \<Longrightarrow> once k g'"
  by (auto simp: once_def holding_def accepted_def ev_Invoke_def aux_defs cnt_update Let_def
                 nth_list_update nth_append
           split: if_splits option.splits task.splits wstage.splits prod.splits)

lemma once_Finish: "once k g \<Longrightarrow> ev_Finish w g = Some g' \<Longrightarrow> once k g'"
  by (auto simp: once_def holding_def accepted_def ev_Finish_def aux_defs cnt_update Let_def
                 nth_list_update nth_append
           split: if_splits option.splits task.splits wstage.splits prod.splits)

lemma once_Fire: "once k g \<Longrightarrow> ev_Fire w g = Some g' \<Longrightarrow> once k g'"
  by (auto simp: once_def holding_def accepted_def ev_Fire_def aux_defs cnt_update Let_def
                 nth_list_update nth_append
           split: if_splits option.splits task.splits wstage.splits prod.splits)

lemma once_Timeout: "once k g \<Longrightarrow> ev_Timeout w g = Some g' \<Longrightarrow> once k g'"
  by (auto simp: once_def holding_def accepted_def ev_Timeout_def aux_defs cnt_update Let_def
                 nth_list_update nth_append
           split: if_splits option.splits task.splits wstage.splits prod.splits)

lemma once_RecvClosed: "once k g \<Longrightarrow> ev_RecvClosed w g = Some g' \<Longrightarrow> once k g'"
  by (auto simp: once_def holding_def accepted_def ev_RecvClosed_def aux_defs cnt_update Let_def
                 nth_list_update nth_append
           split: if_splits option.splits task.splits wstage.splits prod.splits)

lemma once_Release: "once k g \<Longrightarrow> ev_Release w g = Some g' \<Longrightarrow> once k g'"
  by (auto simp: once_def holding_def accepted_def ev_Release_def aux_defs cnt_update Let_def
                 nth_list_update nth_append
           split: if_splits option.splits task.splits wstage.splits prod.splits)

lemma once_WgDone: "once k g \<Longrightarrow> ev_WgDone w g = Some g' \<Longrightarrow> once k g'"
  by (auto simp: once_def holding_def accepted_def ev_WgDone_def aux_defs cnt_update Let_def
                 nth_list_update nth_append
           split: if_splits option.splits task.splits wstage.splits prod.splits)

lemma once_Recover: "once k g \<Longrightarrow> ev_Recover w g = Some g' \<Longrightarrow> once k g'"
  by (auto simp: once_def holding_def accepted_def ev_Recover_def aux_defs cnt_update Let_def
                 nth_list_update nth_append
           split: if_splits option.splits task.splits wstage.splits prod.splits)

lemma once_CallClose: "once k g \<Longrightarrow> ev_CallClose b g = Some g' \<Longrightarrow> once k g'"
  by (auto simp: once_def holding_def accepted_def ev_CallClose_def aux_defs cnt_update Let_def
                 nth_list_update nth_append
           split: if_splits option.splits task.splits wstage.splits prod.splits)

lemma once_Lock: "once k g \<Longrightarrow> ev_Lock c g = Some g' \<Longrightarrow> once k g'"
  by (auto simp: once_def holding_def accepted_def ev_Lock_def aux_defs cnt_update Let_def
                 nth_list_update nth_append
           split: if_splits option.splits task.splits wstage.splits prod.splits)

lemma once_Guard: "once k g \<Longrightarrow> ev_Guard c g = Some g' \<Longrightarrow> once k g'"
  by (auto simp: once_def holding_def accepted_def ev_Guard_def aux_defs cnt_update Let_def
                 nth_list_update nth_append
           split: if_splits option.splits task.splits wstage.splits prod.splits)

lemma once_ClosePending: "once k g \<Longrightarrow> ev_ClosePending c g = Some g' \<Longrightarrow> once k g'"
  by (auto simp: once_def holding_def accepted_def ev_ClosePending_def aux_defs cnt_update Let_def
                 nth_list_update nth_append
           split: if_splits option.splits task.splits wstage.splits prod.splits)

lemma once_CloseTokens: "once k g \<Longrightarrow> ev_CloseTokens c g = Some g' \<Longrightarrow> once k g'"
  by (auto simp: once_def holding_def accepted_def ev_CloseTokens_def aux_defs cnt_update Let_def
                 nth_list_update nth_append
           split: if_splits option.splits task.splits wstage.splits prod.splits)

lemma once_Cancel: "once k g \<Longrightarrow> ev_Cancel c g = Some g' \<Longrightarrow> once k g'"
  by (auto simp: once_def holding_def accepted_def ev_Cancel_def aux_defs cnt_update Let_def
                 nth_list_update nth_append
           split: if_splits option.splits task.splits wstage.splits prod.splits)

lemma once_WaitReturn: "once k g \<Longrightarrow> ev_WaitReturn c g = Some g' \<Longrightarrow> once k g'"
  by (auto simp: once_def holding_def accepted_def ev_WaitReturn_def aux_defs cnt_update Let_def
                 nth_list_update nth_append
           split: if_splits option.splits task.splits wstage.splits prod.splits)

lemma once_step:
  assumes "once k g" and "inv_timer g" and "step e g = Some g'"
  shows "once k g'"
  using assms
  by (cases e)
     (auto intro: once_CallExecute once_Handoff once_Acquire once_SendPanic once_WgAdd once_Go once_Invoke once_Finish once_Fire once_Timeout once_RecvClosed once_Release once_WgDone once_Recover once_CallClose once_Lock once_Guard once_ClosePending once_CloseTokens once_Cancel once_WaitReturn)

subsection \<open>The invariants hold in every pool reached from \<open>NewPool\<close>\<close>

lemma fold_apply_opt:
  "tokens (fold apply_opt opts g) = tokens g \<and>
   wait (fold apply_opt opts g) = wait g \<and>
   subs (fold apply_opt opts g) = subs g \<and>
   workers (fold apply_opt opts g) = workers g \<and>
   closers (fold apply_opt opts g) = closers g \<and>
   started (fold apply_opt opts g) = started g \<and>
   finished (fold apply_opt opts g) = finished g \<and>
   handled (fold apply_opt opts g) = handled g \<and>
   locked (fold apply_opt opts g) = locked g \<and>
   closed (fold apply_opt opts g) = closed g \<and>
   pending_closed (fold apply_opt opts g) = pending_closed g \<and>
   tokens_closed (fold apply_opt opts g) = tokens_closed g \<and>
   cancels (fold apply_opt opts g) = cancels g"
proof (induction opts arbitrary: g)
  case Nil
  show ?case by simp
next
  case (Cons opt opts)
  show ?case by (cases opt) (simp_all add: Cons.IH)
qed

lemma inv_NewPool:
  assumes "NewPool opts = Some g"
  shows "pool_inv g"
proof -
  from assms have g: "g = fold apply_opt opts default_pool" and c: "0 \<le> concurrent g"
    by (auto simp: NewPool_def Let_def split: if_splits)
  note f = fold_apply_opt [of opts default_pool, folded g]
  have d: "tokens default_pool = 0" "wait default_pool = 0" "subs default_pool = []"
    "workers default_pool = []" "closers default_pool = []" "started default_pool = []"
    "finished default_pool = []" "\<not> locked default_pool" "\<not> closed default_pool"
    "\<not> pending_closed default_pool" "\<not> tokens_closed default_pool" "cancels default_pool = 0"
    by (simp_all add: default_pool_def)
  show ?thesis
    using c
    by (simp add: pool_inv_def inv_tokens_def token_holders_def inv_wait_def inv_timer_def
          inv_close_def inv_crash_def once_def body_ok_def holding_def in_body_def
          accepted_def sub_at_def f d)
qed

lemma inv_step:
  assumes "pool_inv g" and "step e g = Some g'"
  shows "pool_inv g'"
  using assms
  by (auto simp: pool_inv_def
           intro: inv_tokens_step inv_wait_step inv_timer_step inv_close_step inv_crash_step
                  once_step body_ok_step)

lemma inv_run: "pool_inv g \<Longrightarrow> run es g = Some g' \<Longrightarrow> pool_inv g'"
proof (induction es arbitrary: g)
  case Nil
  then show ?case by simp
next
  case (Cons e es)
  then show ?case by (auto split: option.splits dest: inv_step)
qed

lemma inv_run_from: "run_from opts es = Some g \<Longrightarrow> pool_inv g"
  by (auto simp: run_from_def split: option.splits dest: inv_NewPool inv_run)

lemma pool_inv_once:
  "pool_inv g \<Longrightarrow> int (count_list (started g) k) + holding k g = of_bool (accepted k g)"
  unfolding pool_inv_def once_def by blast

lemma pool_inv_body:
  "pool_inv g \<Longrightarrow> int (count_list (started g) k) = int (count_list (finished g) k) + in_body k g"
  unfolding pool_inv_def body_ok_def by blast

subsection \<open>Consequences used for the properties of the specification\<close>

text \<open>
  The deferred calls of a worker that has left its loop run to the end: one token is
  taken, the counter is decremented, the panic in flight is recovered.
\<close>

lemma defers_run:
  assumes "pool_inv g" and "w < length (workers g)" and "w_stage (workers g ! w) = W_Token r"
  shows "\<exists>g'. run [Release w, WgDone w, Recover w] g = Some g' \<and>
           w_stage (workers g' ! w) =
             (case fst (doRecover (recoverFunc g) r (handled g)) of
                None \<Rightarrow> W_Exited | Some q \<Rightarrow> W_Crashed q) \<and>
           int (tokens g') = int (tokens g) - 1 \<and> wait g' = wait g - 1 \<and>
           handled g' = snd (doRecover (recoverFunc g) r (handled g)) \<and>
           started g' = started g \<and> finished g' = finished g \<and> subs g' = subs g \<and>
           concurrent g' = concurrent g \<and> tokens_closed g' = tokens_closed g \<and>
           length (workers g') = length (workers g)"
proof -
  from assms(2,3) have "1 \<le> cnt (\<lambda>x. w_holds (w_stage x)) (workers g)"
    and "1 \<le> cnt (\<lambda>x. w_counted (w_stage x)) (workers g)"
    by (auto intro!: cnt_pos [of w])
  moreover have "0 \<le> cnt (\<lambda>x. e_holds (e_stage x)) (subs g)"
    and "0 \<le> cnt (\<lambda>x. e_stage x = E_Go) (subs g)"
    by simp_all
  ultimately have pos: "0 < tokens g" "0 < wait g"
    using assms(1) unfolding pool_inv_def inv_tokens_def token_holders_def inv_wait_def
    by linarith+
  obtain r' log where d: "doRecover (recoverFunc g) r (handled g) = (r', log)"
    by (cases "doRecover (recoverFunc g) r (handled g)")
  with pos assms(2,3) show ?thesis
    by (simp add: ev_Release_def ev_WgDone_def ev_Recover_def set_worker_def of_nat_diff)
qed

lemma exit_chain:
  assumes "pool_inv g" and "step e g = Some g1" and "w < length (workers g1)"
    and "w_stage (workers g1 ! w) = W_Token r"
  shows "\<exists>g'. run [e, Release w, WgDone w, Recover w] g = Some g' \<and> pool_inv g' \<and>
           w_stage (workers g' ! w) =
             (case fst (doRecover (recoverFunc g1) r (handled g1)) of
                None \<Rightarrow> W_Exited | Some q \<Rightarrow> W_Crashed q) \<and>
           int (tokens g') = int (tokens g1) - 1 \<and> wait g' = wait g1 - 1 \<and>
           handled g' = snd (doRecover (recoverFunc g1) r (handled g1)) \<and>
           started g' = started g1 \<and> finished g' = finished g1 \<and> subs g' = subs g1 \<and>
           concurrent g' = concurrent g1 \<and> tokens_closed g' = tokens_closed g1"
proof -
  from assms(1,2) have inv1: "pool_inv g1" by (rule inv_step)
  from defers_run [OF inv1 assms(3,4)] obtain g' where
    r: "run [Release w, WgDone w, Recover w] g1 = Some g'" and
    rest: "w_stage (workers g' ! w) =
             (case fst (doRecover (recoverFunc g1) r (handled g1)) of
                None \<Rightarrow> W_Exited | Some q \<Rightarrow> W_Crashed q)"
      "int (tokens g') = int (tokens g1) - 1" "wait g' = wait g1 - 1"
      "handled g' = snd (doRecover (recoverFunc g1) r (handled g1))"
      "started g' = started g1" "finished g' = finished g1" "subs g' = subs g1"
      "concurrent g' = concurrent g1" "tokens_closed g' = tokens_closed g1"
    by blast
  from inv1 r have "pool_inv g'" by (rule inv_run)
  moreover from assms(2) r have "run [e, Release w, WgDone w, Recover w] g = Some g'"
    by simp
  ultimately show ?thesis using rest by blast
qed

text \<open>
  A worker leaves its loop only towards its deferred calls.
\<close>

lemma step_workers_length: "step e g = Some g' \<Longrightarrow> length (workers g) \<le> length (workers g')"
  by (cases e)
     (auto simp: ev_defs aux_defs Let_def
           split: if_splits option.splits task.splits wstage.splits prod.splits)

lemma leave_loop:
  assumes "inv_timer g" and "step e g = Some g1" and "w < length (workers g)"
    and "w_looping (w_stage (workers g ! w))" and "\<not> w_looping (w_stage (workers g1 ! w))"
  shows "\<exists>r. w_stage (workers g1 ! w) = W_Token r"
proof (cases e)
  case (Handoff i v)
  with assms(2) have at: "v < length (workers g)" "w_stage (workers g ! v) = W_Select"
    by (auto simp: ev_Handoff_def worker_at_def split: if_splits)
  with assms(1) have "rearm (w_timer (workers g ! v)) = Some (Timer True False)"
    by (auto simp: inv_timer_def intro!: rearm_ok)
  with assms Handoff at show ?thesis
    by (auto simp: ev_Handoff_def aux_defs Let_def nth_list_update split: if_splits)
qed (use assms in \<open>auto simp: ev_defs aux_defs Let_def nth_list_update nth_append
           split: if_splits option.splits task.splits wstage.splits prod.splits\<close>)

lemma step_started_mono:
  "step e g = Some g' \<Longrightarrow> count_list (started g) k \<le> count_list (started g') k"
  by (cases e)
     (auto simp: ev_defs aux_defs Let_def
           split: if_splits option.splits task.splits wstage.splits prod.splits)

lemma run_started_mono:
  "run es g = Some g' \<Longrightarrow> count_list (started g) k \<le> count_list (started g') k"
proof (induction es arbitrary: g)
  case Nil
  then show ?case by simp
next
  case (Cons e es)
  then obtain g1 where s: "step e g = Some g1" and r: "run es g1 = Some g'"
    by (auto split: option.splits)
  from step_started_mono [OF s, of k] Cons.IH [OF r] show ?case by simp
qed

lemma started_le_one:
  assumes "pool_inv g"
  shows "count_list (started g) k \<le> 1"
proof -
  have "0 \<le> holding k g" by (simp add: holding_def)
  with pool_inv_once [OF assms, of k] show ?thesis by (cases "accepted k g") simp_all
qed

lemma wait_zero_no_live:
  assumes "pool_inv g" and "wait g = 0"
  shows "live_workers g = 0"
proof -
  have "0 \<le> cnt (\<lambda>x. e_stage x = E_Go) (subs g)" and "0 \<le> live_workers g"
    by (simp_all add: live_workers_def)
  with assms show ?thesis
    unfolding pool_inv_def inv_wait_def live_workers_def by linarith
qed

lemma holding_le_live: "holding k g \<le> live_workers g"
  unfolding holding_def live_workers_def by (rule cnt_mono) auto

lemma in_body_le_live: "in_body k g \<le> live_workers g"
  unfolding in_body_def live_workers_def by (rule cnt_mono) auto

lemma in_bodies_le_live: "in_bodies g \<le> live_workers g"
  unfolding in_bodies_def live_workers_def by (rule cnt_mono) auto

lemma cancels_le_one:
  assumes "inv_close g"
  shows "cancels g \<le> 1"
proof -
  from assms
  have n: "int (cancels g) = cnt (\<lambda>x. c_past (c_stage x) \<and> \<not> c_grace x) (closers g)"
    and t: "cnt (\<lambda>x. c_stage x = C_Cancel) (closers g) + cnt (\<lambda>x. c_past (c_stage x)) (closers g)
            = of_bool (tokens_closed g)"
    by (simp_all add: inv_close_def)
  have m: "cnt (\<lambda>x. c_past (c_stage x) \<and> \<not> c_grace x) (closers g)
           \<le> cnt (\<lambda>x. c_past (c_stage x)) (closers g)"
    by (rule cnt_mono) simp
  have z: "0 \<le> cnt (\<lambda>x. c_stage x = C_Cancel) (closers g)"
    by simp
  have b: "(of_bool (tokens_closed g) :: int) \<le> 1"
    by simp
  from n t m z b have "int (cancels g) \<le> 1"
    by linarith
  then show ?thesis by simp
qed

text \<open>The \<open>Close\<close> calls past the guard, as one class of stages.\<close>

lemma cnt_performs:
  "cnt (\<lambda>x. c_stage x = C_ClosePending) cs + cnt (\<lambda>x. c_stage x = C_CloseTokens) cs +
   cnt (\<lambda>x. c_stage x = C_Cancel) cs + cnt (\<lambda>x. c_past (c_stage x)) cs
   = cnt (\<lambda>x. c_performs (c_stage x)) cs"
proof (induction cs)
  case Nil
  show ?case by simp
next
  case (Cons a cs)
  then show ?case by (cases "c_stage a") (simp_all add: cnt_Cons)
qed

lemma performers_le_one:
  assumes "inv_close g"
  shows "cnt (\<lambda>x. c_performs (c_stage x)) (closers g) \<le> 1"
proof -
  from assms have "cnt (\<lambda>x. c_performs (c_stage x)) (closers g) = of_bool (closed g)"
    by (simp add: inv_close_def cnt_performs [symmetric])
  then show ?thesis by (cases "closed g") simp_all
qed

text \<open>What the simplifier unfolds to run a schedule on a given pool.\<close>

lemmas eval_defs = run_from_def NewPool_def default_pool_def ev_defs aux_defs Let_def
  NewTimer_def timer_fire_def timer_Stop_def timer_recv_def timer_Reset_def rearm_def
  logging_handler_def rethrowing_handler_def

section \<open>The properties of the specification\<close>

text \<open>
  C1. For every schedule of a pool built with capacity \<open>concurrent\<close>: the workers that
  hold a token (every worker from its creation until its deferred \<open><-g.tokens\<close>) are at
  most \<open>concurrent\<close>, and so are the task bodies running at the same time. The tokens in
  the channel are exactly one per such worker and one per \<open>Execute\<close> call that has sent its
  token and not yet started its worker, so a worker exists only after the send succeeded,
  and the channel never holds more than its capacity. The bound is on the workers that
  hold a token, not on the worker goroutines alive: the token is given back by the first
  deferred call that runs, before \<open>Done\<close> and \<open>doRecover\<close>.
\<close>

theorem tokens_bound_workers:
  assumes "run_from opts es = Some g"
  shows "holders g \<le> concurrent g \<and> in_bodies g \<le> concurrent g \<and>
         int (tokens g) = spawning g + holders g \<and> int (tokens g) \<le> concurrent g"
proof -
  from assms have "pool_inv g" by (rule inv_run_from)
  then have t: "int (tokens g) = spawning g + holders g" "int (tokens g) \<le> concurrent g"
    by (simp_all add: pool_inv_def inv_tokens_def token_holders_def spawning_def holders_def)
  have "0 \<le> spawning g" by (simp add: spawning_def)
  moreover have "in_bodies g \<le> holders g"
    unfolding in_bodies_def holders_def by (rule cnt_mono) simp
  ultimately show ?thesis using t by linarith
qed

theorem tokens_bound_workers_witness:
  "run_from [WithConcurrent 1]
     [CallExecute (Fn None), Acquire 0, WgAdd 0, Go 0, Invoke 0, CallExecute (Fn None)]
     = Some busy_pool \<and>
   holders busy_pool \<le> concurrent busy_pool \<and> in_bodies busy_pool \<le> concurrent busy_pool \<and>
   int (tokens busy_pool) = spawning busy_pool + holders busy_pool \<and>
   int (tokens busy_pool) \<le> concurrent busy_pool"
proof -
  have r: "run_from [WithConcurrent 1]
     [CallExecute (Fn None), Acquire 0, WgAdd 0, Go 0, Invoke 0, CallExecute (Fn None)]
     = Some busy_pool"
    by (simp add: eval_defs busy_pool_def)
  from tokens_bound_workers [OF r] r show ?thesis by simp
qed

text \<open>
  The worker goroutines alive are not bounded by the capacity. With capacity one, the
  first worker takes the expiry of its timer and gives its token back; before it has
  called \<open>Done\<close>, a second \<open>Execute\<close> takes the token and starts a second worker,
  which runs its task. Two worker goroutines are alive, one of them holding a token.
\<close>

theorem workers_alive_counterexample:
  "run_from [WithConcurrent 1]
     [CallExecute (Fn None), Acquire 0, WgAdd 0, Go 0, Invoke 0, Finish 0, Fire 0, Timeout 0,
      Release 0, CallExecute (Fn None), Acquire 1, WgAdd 1, Go 1, Invoke 1]
     = Some crowded_pool \<and>
   concurrent crowded_pool = 1 \<and> alive crowded_pool = 2 \<and>
   w_stage (workers crowded_pool ! 0) = W_Done None \<and>
   w_stage (workers crowded_pool ! 1) = W_Body \<and>
   holders crowded_pool = 1"
  by (simp add: eval_defs crowded_pool_def alive_def holders_def cnt_def)

text \<open>
  C2. A task is submitted once its \<open>Execute\<close> call has returned the pool
  (\<open>accepted\<close>; a nil func is no task). In every state of every schedule such a task
  is accounted for exactly once: either its body has been started once, or one worker
  stands before the call \<open>f(g.ctx)\<close> with it, never both and never twice. No body is
  ever started twice. When the wait counter is zero, which is what \<open>Close\<close> waits for,
  the body has been started and has ended. Both ways of submission lead there: an
  \<open>Execute\<close> at its \<open>select\<close> with a worker waiting at the open \<open>pending\<close> channel
  hands the task over, returns the pool, and that worker starts the body of this task;
  an \<open>Execute\<close> that has taken a token and added to the wait counter starts a new
  worker, returns the pool, and the new worker starts the body of this task.
\<close>

theorem accepted_task_runs_once:
  assumes "run_from opts es = Some g"
  shows "(accepted i g \<longrightarrow>
            int (count_list (started g) i) + holding i g = 1 \<and>
            (wait g = 0 \<longrightarrow> count_list (started g) i = 1 \<and> count_list (finished g) i = 1)) \<and>
         count_list (started g) k \<le> 1 \<and>
         (sub_at i E_Select g \<and> e_f (subs g ! i) \<noteq> NilFunc \<and> worker_at w W_Select g \<and>
          \<not> pending_closed g \<longrightarrow>
            (case run [Handoff i w, Invoke w] g of
               None \<Rightarrow> False
             | Some g' \<Rightarrow> accepted i g' \<and> count_list (started g') i = 1 \<and>
                 worker_at w W_Body g' \<and> w_origin (workers g' ! w) = i)) \<and>
         (sub_at i E_Go g \<and> e_f (subs g ! i) \<noteq> NilFunc \<longrightarrow>
            (case run [Go i, Invoke (length (workers g))] g of
               None \<Rightarrow> False
             | Some g' \<Rightarrow> accepted i g' \<and> count_list (started g') i = 1 \<and>
                 worker_at (length (workers g)) W_Body g' \<and>
                 w_origin (workers g' ! length (workers g)) = i))"
proof -
  from assms(1) have inv: "pool_inv g" by (rule inv_run_from)
  note o = pool_inv_once [OF inv, of i] and b = pool_inv_body [OF inv, of i]
  have hn: "0 \<le> holding i g" by (simp add: holding_def)
  have acc: "int (count_list (started g) i) + holding i g = 1 \<and>
            (wait g = 0 \<longrightarrow> count_list (started g) i = 1 \<and> count_list (finished g) i = 1)"
    if a: "accepted i g"
  proof -
    from o a have one: "int (count_list (started g) i) + holding i g = 1" by simp
    have "count_list (started g) i = 1 \<and> count_list (finished g) i = 1" if "wait g = 0"
    proof -
      from inv that have "live_workers g = 0" by (rule wait_zero_no_live)
      with holding_le_live [of i g] in_body_le_live [of i g]
      have "holding i g \<le> 0" "in_body i g \<le> 0" by simp_all
      moreover have "0 \<le> in_body i g" by (simp add: in_body_def)
      ultimately show ?thesis using one b hn by simp
    qed
    with one show ?thesis by blast
  qed
  have fresh: "count_list (started g) i = 0" if "\<not> accepted i g"
    using o that hn by simp
  have handoff: "case run [Handoff i w, Invoke w] g of
               None \<Rightarrow> False
             | Some g' \<Rightarrow> accepted i g' \<and> count_list (started g') i = 1 \<and>
                 worker_at w W_Body g' \<and> w_origin (workers g' ! w) = i"
    if sel: "sub_at i E_Select g" and f: "e_f (subs g ! i) \<noteq> NilFunc"
      and wat: "worker_at w W_Select g" and op: "\<not> pending_closed g"
  proof -
    from sel have "\<not> accepted i g" by (simp add: accepted_def sub_at_def)
    then have z: "count_list (started g) i = 0" by (rule fresh)
    from wat have at: "w < length (workers g)" "w_stage (workers g ! w) = W_Select"
      by (simp_all add: worker_at_def)
    with inv have "running (w_timer (workers g ! w)) \<noteq> expired (w_timer (workers g ! w))"
      by (auto simp: pool_inv_def inv_timer_def)
    then have re: "rearm (w_timer (workers g ! w)) = Some (Timer True False)"
      by (rule rearm_ok)
    from f obtain bd where fb: "e_f (subs g ! i) = Fn bd"
      by (cases "e_f (subs g ! i)") simp_all
    from sel wat op at re fb z show ?thesis
      by (simp add: ev_Handoff_def ev_Invoke_def Let_def set_worker_def set_sub_def
            sub_at_def worker_at_def accepted_def)
  qed
  have spawn: "case run [Go i, Invoke (length (workers g))] g of
               None \<Rightarrow> False
             | Some g' \<Rightarrow> accepted i g' \<and> count_list (started g') i = 1 \<and>
                 worker_at (length (workers g)) W_Body g' \<and>
                 w_origin (workers g' ! length (workers g)) = i"
    if go: "sub_at i E_Go g" and f: "e_f (subs g ! i) \<noteq> NilFunc"
  proof -
    from go have "\<not> accepted i g" by (simp add: accepted_def sub_at_def)
    then have z: "count_list (started g) i = 0" by (rule fresh)
    from f obtain bd where fb: "e_f (subs g ! i) = Fn bd"
      by (cases "e_f (subs g ! i)") simp_all
    from go fb z show ?thesis
      by (simp add: ev_Go_def ev_Invoke_def Let_def set_worker_def set_sub_def
            sub_at_def worker_at_def accepted_def nth_append)
  qed
  from acc started_le_one [OF inv, of k] handoff spawn show ?thesis by blast
qed

theorem accepted_task_runs_once_witness:
  "run_from [WithConcurrent 1]
     [CallExecute (Fn None), Acquire 0, WgAdd 0, Go 0, Invoke 0, Finish 0, Fire 0,
      CallExecute (Fn None), Handoff 1 0, Invoke 0, Finish 0, Fire 0, Timeout 0,
      Release 0, WgDone 0, Recover 0] = Some served_pool \<and>
   accepted 1 served_pool \<and>
   int (count_list (started served_pool) 1) + holding 1 served_pool = 1 \<and>
   wait served_pool = 0 \<and>
   count_list (started served_pool) 1 = 1 \<and> count_list (finished served_pool) 1 = 1 \<and>
   count_list (started served_pool) 0 \<le> 1 \<and>
   run_from [WithConcurrent 1]
     [CallExecute (Fn None), Acquire 0, WgAdd 0, Go 0, Invoke 0, Finish 0, Fire 0,
      CallExecute (Fn None)] = Some idle_pool \<and>
   sub_at 1 E_Select idle_pool \<and> e_f (subs idle_pool ! 1) \<noteq> NilFunc \<and>
   worker_at 0 W_Select idle_pool \<and> \<not> pending_closed idle_pool \<and>
   (case run [Handoff 1 0, Invoke 0] idle_pool of
      None \<Rightarrow> False
    | Some g' \<Rightarrow> accepted 1 g' \<and> count_list (started g') 1 = 1 \<and>
        worker_at 0 W_Body g' \<and> w_origin (workers g' ! 0) = 1) \<and>
   run_from [WithConcurrent 1] [CallExecute (Fn None), Acquire 0, WgAdd 0] = Some go_pool \<and>
   sub_at 0 E_Go go_pool \<and> e_f (subs go_pool ! 0) \<noteq> NilFunc \<and>
   (case run [Go 0, Invoke (length (workers go_pool))] go_pool of
      None \<Rightarrow> False
    | Some g' \<Rightarrow> accepted 0 g' \<and> count_list (started g') 0 = 1 \<and>
        worker_at (length (workers go_pool)) W_Body g' \<and>
        w_origin (workers g' ! length (workers go_pool)) = 0)"
proof -
  have r1: "run_from [WithConcurrent 1]
     [CallExecute (Fn None), Acquire 0, WgAdd 0, Go 0, Invoke 0, Finish 0, Fire 0,
      CallExecute (Fn None), Handoff 1 0, Invoke 0, Finish 0, Fire 0, Timeout 0,
      Release 0, WgDone 0, Recover 0] = Some served_pool"
    by (simp add: eval_defs served_pool_def)
  have h1: "accepted 1 served_pool" "wait served_pool = 0"
    by (simp_all add: served_pool_def accepted_def sub_at_def)
  have r2: "run_from [WithConcurrent 1]
     [CallExecute (Fn None), Acquire 0, WgAdd 0, Go 0, Invoke 0, Finish 0, Fire 0,
      CallExecute (Fn None)] = Some idle_pool"
    by (simp add: eval_defs idle_pool_def)
  have h2: "sub_at 1 E_Select idle_pool" "e_f (subs idle_pool ! 1) \<noteq> NilFunc"
    "worker_at 0 W_Select idle_pool" "\<not> pending_closed idle_pool"
    by (simp_all add: idle_pool_def sub_at_def worker_at_def)
  have r3: "run_from [WithConcurrent 1] [CallExecute (Fn None), Acquire 0, WgAdd 0]
      = Some go_pool"
    by (simp add: eval_defs go_pool_def)
  have h3: "sub_at 0 E_Go go_pool" "e_f (subs go_pool ! 0) \<noteq> NilFunc"
    by (simp_all add: go_pool_def sub_at_def)
  from accepted_task_runs_once [OF r1, where i = 1 and k = 0]
    accepted_task_runs_once [OF r2, where i = 1 and w = 0]
    accepted_task_runs_once [OF r3, where i = 0]
    r1 h1 r2 h2 r3 h3
  show ?thesis by blast
qed

text \<open>
  An \<open>Execute\<close> that was called before \<open>Close\<close> need not return the pool. With
  capacity one and the only worker inside a task body, a second \<open>Execute\<close> blocks at its
  \<open>select\<close>; \<open>Close\<close> is then called and closes \<open>pending\<close>; the blocked send panics,
  the deferred \<open>doRecover\<close> recovers it and \<open>Execute\<close> returns nil. \<open>Close\<close> returns,
  no worker is left, and the body of the second task was never started.
\<close>

theorem task_dropped_at_close_counterexample:
  "run_from [WithConcurrent 1]
     [CallExecute (Fn None), Acquire 0, WgAdd 0, Go 0, Invoke 0, CallExecute (Fn None),
      CallClose True, Lock 0, Guard 0, ClosePending 0, SendPanic 1, CloseTokens 0, Cancel 0,
      Finish 0, RecvClosed 0, Release 0, WgDone 0, Recover 0, WaitReturn 0]
     = Some dropped_pool \<and>
   e_f (subs dropped_pool ! 1) = Fn None \<and>
   e_stage (subs dropped_pool ! 1) = E_Returned RetNil \<and>
   count_list (started dropped_pool) 1 = 0 \<and>
   c_stage (closers dropped_pool ! 0) = C_Returned True \<and>
   alive dropped_pool = 0"
  by (simp add: eval_defs dropped_pool_def alive_def cnt_def)

text \<open>
  C3, as the code has it. The deferred \<open>doRecover\<close> of \<open>loop\<close> is registered for the
  whole function, not around the call \<open>f(g.ctx)\<close>: a panic of the task leaves the
  \<open>for\<close> loop and unwinds \<open>loop\<close>. So when a task body panics with payload \<open>p\<close>, the
  worker stands before its deferred calls with \<open>p\<close> in flight, not at the \<open>select\<close>;
  it gives its token back, calls \<open>Done\<close>, then \<open>doRecover\<close> recovers the panic. When
  \<open>p\<close> is not the nil value and a handler is configured, the handler is called with
  \<open>p\<close>; nothing is called otherwise. The worker has then returned from \<open>loop\<close>:
  without a panic, unless the handler itself panicked, in which case that panic leaves
  the goroutine.
\<close>

theorem task_panic_ends_worker:
  assumes "run_from opts es = Some g" and "worker_at w W_Body g"
    and "w_f (workers g ! w) = Fn (Some p)"
  shows "(case step (Finish w) g of
            None \<Rightarrow> False
          | Some g1 \<Rightarrow> w_stage (workers g1 ! w) = W_Token (Some p)) \<and>
         (case run [Finish w, Release w, WgDone w, Recover w] g of
            None \<Rightarrow> False
          | Some g' \<Rightarrow>
              int (tokens g') = int (tokens g) - 1 \<and> wait g' = wait g - 1 \<and>
              handled g' = (if p \<noteq> NilValue \<and> recoverFunc g \<noteq> None then handled g @ [p]
                            else handled g) \<and>
              w_stage (workers g' ! w) =
                (if p = NilValue then W_Exited
                 else (case recoverFunc g of
                         None \<Rightarrow> W_Exited
                       | Some h \<Rightarrow> (case h p of None \<Rightarrow> W_Exited | Some q \<Rightarrow> W_Crashed q))))"
proof -
  from assms(1) have inv: "pool_inv g" by (rule inv_run_from)
  define g1 where
    "g1 = set_worker w (unwind (Some p) (workers g ! w))
            (g\<lparr>finished := finished g @ [w_origin (workers g ! w)]\<rparr>)"
  from assms(2,3) have s: "step (Finish w) g = Some g1"
    by (simp add: ev_Finish_def Let_def g1_def)
  from assms(2) have g1: "w < length (workers g1)" "w_stage (workers g1 ! w) = W_Token (Some p)"
    "tokens g1 = tokens g" "wait g1 = wait g" "handled g1 = handled g"
    "recoverFunc g1 = recoverFunc g"
    by (simp_all add: g1_def set_worker_def unwind_def worker_at_def)
  from s g1(2) have first: "case step (Finish w) g of
            None \<Rightarrow> False
          | Some g1 \<Rightarrow> w_stage (workers g1 ! w) = W_Token (Some p)"
    by simp
  from exit_chain [OF inv s g1(1,2)] g1(3-6)
  have "case run [Finish w, Release w, WgDone w, Recover w] g of
            None \<Rightarrow> False
          | Some g' \<Rightarrow>
              int (tokens g') = int (tokens g) - 1 \<and> wait g' = wait g - 1 \<and>
              handled g' = (if p \<noteq> NilValue \<and> recoverFunc g \<noteq> None then handled g @ [p]
                            else handled g) \<and>
              w_stage (workers g' ! w) =
                (if p = NilValue then W_Exited
                 else (case recoverFunc g of
                         None \<Rightarrow> W_Exited
                       | Some h \<Rightarrow> (case h p of None \<Rightarrow> W_Exited | Some q \<Rightarrow> W_Crashed q)))"
    by (auto simp: doRecover_def split: option.splits)
  with first show ?thesis by blast
qed

theorem task_panic_ends_worker_witness:
  "run_from [WithConcurrent 1, WithRecover (Some logging_handler)]
     [CallExecute (Fn (Some (User 7))), Acquire 0, WgAdd 0, Go 0, Invoke 0]
     = Some panicking_pool \<and>
   worker_at 0 W_Body panicking_pool \<and>
   w_f (workers panicking_pool ! 0) = Fn (Some (User 7)) \<and>
   (case step (Finish 0) panicking_pool of
      None \<Rightarrow> False
    | Some g1 \<Rightarrow> w_stage (workers g1 ! 0) = W_Token (Some (User 7))) \<and>
   (case run [Finish 0, Release 0, WgDone 0, Recover 0] panicking_pool of
      None \<Rightarrow> False
    | Some g' \<Rightarrow>
        int (tokens g') = int (tokens panicking_pool) - 1 \<and>
        wait g' = wait panicking_pool - 1 \<and>
        handled g' = handled panicking_pool @ [User 7] \<and>
        w_stage (workers g' ! 0) = W_Exited)"
proof -
  have r: "run_from [WithConcurrent 1, WithRecover (Some logging_handler)]
     [CallExecute (Fn (Some (User 7))), Acquire 0, WgAdd 0, Go 0, Invoke 0]
     = Some panicking_pool"
    by (simp add: eval_defs panicking_pool_def)
  have h: "worker_at 0 W_Body panicking_pool"
    "w_f (workers panicking_pool ! 0) = Fn (Some (User 7))"
    by (simp_all add: panicking_pool_def worker_at_def)
  have k: "recoverFunc panicking_pool = Some logging_handler"
    by (simp add: panicking_pool_def)
  from task_panic_ends_worker [OF r h] r h k show ?thesis
    by (auto simp: logging_handler_def split: option.splits)
qed

text \<open>
  C3 as the specification states it fails: capacity one, a handler that returns, one task
  that panics with \<open>User 7\<close>. After the body has ended the worker is not waiting for work
  but unwinding; after its deferred calls it has exited and the handler has been called
  once with the payload; a second \<open>Execute\<close> cannot hand its task to that worker.
\<close>

theorem task_panic_worker_continues_counterexample:
  "run_from [WithConcurrent 1, WithRecover (Some logging_handler)]
     [CallExecute (Fn (Some (User 7))), Acquire 0, WgAdd 0, Go 0, Invoke 0, Finish 0]
     = Some unwinding_pool \<and>
   w_stage (workers unwinding_pool ! 0) = W_Token (Some (User 7)) \<and>
   w_stage (workers unwinding_pool ! 0) \<noteq> W_Select \<and>
   run_from [WithConcurrent 1, WithRecover (Some logging_handler)]
     [CallExecute (Fn (Some (User 7))), Acquire 0, WgAdd 0, Go 0, Invoke 0, Finish 0,
      Release 0, WgDone 0, Recover 0] = Some exited_pool \<and>
   w_stage (workers exited_pool ! 0) = W_Exited \<and>
   handled exited_pool = [User 7] \<and>
   run_from [WithConcurrent 1, WithRecover (Some logging_handler)]
     [CallExecute (Fn (Some (User 7))), Acquire 0, WgAdd 0, Go 0, Invoke 0, Finish 0,
      Release 0, WgDone 0, Recover 0, CallExecute (Fn None), Handoff 1 0] = None"
  by (simp add: eval_defs unwinding_pool_def exited_pool_def)

text \<open>
  C4. The \<open>Close\<close> call that runs the shutdown returns from \<open>g.wait.Wait()\<close> only when
  the counter is zero; then no worker is left that has not called \<open>Done\<close>, no task body
  is running, and every body that was started has ended. In particular a task whose
  body was running in an earlier state \<open>g1\<close>, such as the state in which \<open>Close\<close> was
  called, had not ended there and has ended when \<open>Wait\<close> returns in \<open>g2\<close>.
\<close>

theorem close_returns_after_workers:
  assumes "run_from opts es1 = Some g1" and "worker_at w W_Body g1"
    and "w_origin (workers g1 ! w) = i" and "run es2 g1 = Some g2"
    and "step (WaitReturn c) g2 \<noteq> None"
  shows "wait g2 = 0 \<and> live_workers g2 = 0 \<and> in_bodies g2 = 0 \<and>
         count_list (finished g1) i = 0 \<and> count_list (finished g2) i = 1 \<and>
         count_list (started g2) k = count_list (finished g2) k"
proof -
  from assms(1) have inv1: "pool_inv g1" by (rule inv_run_from)
  from inv1 assms(4) have inv2: "pool_inv g2" by (rule inv_run)
  from assms(5) have w0: "wait g2 = 0"
    by (auto simp: ev_WaitReturn_def split: if_splits)
  from inv2 w0 have live: "live_workers g2 = 0" by (rule wait_zero_no_live)
  have nn: "0 \<le> in_bodies g2" "0 \<le> in_body i g2" "0 \<le> in_body k g2"
    by (simp_all add: in_bodies_def in_body_def)
  from live in_bodies_le_live [of g2] nn have nb: "in_bodies g2 = 0" by simp
  from live in_body_le_live [of i g2] in_body_le_live [of k g2] nn
  have z: "in_body i g2 = 0" "in_body k g2 = 0" by simp_all
  from assms(2,3) have "1 \<le> in_body i g1"
    unfolding in_body_def by (auto simp: worker_at_def intro!: cnt_pos [of w])
  moreover note pool_inv_body [OF inv1, of i]
  ultimately have s1: "1 \<le> count_list (started g1) i"
    and f1: "int (count_list (finished g1) i) + 1 \<le> int (count_list (started g1) i)"
    by linarith+
  from started_le_one [OF inv1, of i] f1 have fin1: "count_list (finished g1) i = 0" by linarith
  from s1 run_started_mono [OF assms(4), of i] started_le_one [OF inv2, of i]
  have s2: "count_list (started g2) i = 1" by linarith
  from z pool_inv_body [OF inv2, of i] pool_inv_body [OF inv2, of k]
  have "count_list (started g2) i = count_list (finished g2) i"
    and "count_list (started g2) k = count_list (finished g2) k"
    by simp_all
  with s2 w0 live nb fin1 show ?thesis by simp
qed

theorem close_returns_after_workers_witness:
  "run_from [WithConcurrent 1]
     [CallExecute (Fn None), Acquire 0, WgAdd 0, Go 0, Invoke 0, CallClose True]
     = Some closing_pool \<and>
   worker_at 0 W_Body closing_pool \<and> w_origin (workers closing_pool ! 0) = 0 \<and>
   run [Lock 0, Guard 0, ClosePending 0, CloseTokens 0, Cancel 0, Finish 0, RecvClosed 0,
        Release 0, WgDone 0, Recover 0] closing_pool = Some waiting_pool \<and>
   step (WaitReturn 0) waiting_pool \<noteq> None \<and>
   wait waiting_pool = 0 \<and> live_workers waiting_pool = 0 \<and> in_bodies waiting_pool = 0 \<and>
   count_list (finished closing_pool) 0 = 0 \<and> count_list (finished waiting_pool) 0 = 1 \<and>
   count_list (started waiting_pool) 0 = count_list (finished waiting_pool) 0"
proof -
  have r1: "run_from [WithConcurrent 1]
     [CallExecute (Fn None), Acquire 0, WgAdd 0, Go 0, Invoke 0, CallClose True]
     = Some closing_pool"
    by (simp add: eval_defs closing_pool_def)
  have b: "worker_at 0 W_Body closing_pool" by (simp add: closing_pool_def worker_at_def)
  have o: "w_origin (workers closing_pool ! 0) = 0" by (simp add: closing_pool_def)
  have r2: "run [Lock 0, Guard 0, ClosePending 0, CloseTokens 0, Cancel 0, Finish 0, RecvClosed 0,
        Release 0, WgDone 0, Recover 0] closing_pool = Some waiting_pool"
    by (simp add: eval_defs closing_pool_def waiting_pool_def)
  have s: "step (WaitReturn 0) waiting_pool \<noteq> None"
    by (simp add: eval_defs waiting_pool_def)
  from close_returns_after_workers [OF r1 b o r2 s, of 0] r1 b o r2 s show ?thesis by simp
qed

text \<open>
  \<open>Close\<close> can return while a worker has not exited. First schedule: the task panics
  while \<open>Close(true)\<close> waits; the worker gives its token back and calls \<open>Done\<close>, the
  counter is zero and \<open>Close\<close> returns, while the worker still stands before its last
  deferred call, \<open>doRecover\<close>: the goroutine is alive and the handler has not been
  called yet. Second schedule: a second call of \<open>Close\<close> finds \<open>closed\<close> set and
  returns at the guard, while the task is still inside its body.
\<close>

theorem close_returns_before_exit_counterexample:
  "run_from [WithConcurrent 1, WithRecover (Some logging_handler)]
     [CallExecute (Fn (Some (User 7))), Acquire 0, WgAdd 0, Go 0, Invoke 0,
      CallClose True, Lock 0, Guard 0, ClosePending 0, CloseTokens 0, Cancel 0,
      Finish 0, Release 0, WgDone 0, WaitReturn 0] = Some early_pool \<and>
   c_stage (closers early_pool ! 0) = C_Returned True \<and>
   w_stage (workers early_pool ! 0) = W_Recover (Some (User 7)) \<and>
   alive early_pool = 1 \<and> handled early_pool = [] \<and>
   run_from [WithConcurrent 1]
     [CallExecute (Fn None), Acquire 0, WgAdd 0, Go 0, Invoke 0,
      CallClose True, Lock 0, Guard 0, CallClose True, Lock 1, Guard 1]
     = Some second_close_pool \<and>
   c_stage (closers second_close_pool ! 1) = C_Returned False \<and>
   w_stage (workers second_close_pool ! 0) = W_Body \<and>
   count_list (finished second_close_pool) 0 = 0 \<and>
   alive second_close_pool = 1"
  by (simp add: eval_defs early_pool_def second_close_pool_def alive_def cnt_def)

text \<open>
  C5. \<open>cancels\<close> counts the calls of \<open>g.cancel\<close>; it is always the number of
  \<open>Close\<close> calls that were not graceful and have passed lines 94 to 96. A
  \<open>Close(false)\<close> that runs the shutdown has cancelled the shared context once it waits
  in \<open>g.wait.Wait()\<close>, hence at the latest when it returns: from then on the count is
  one. \<open>Close(true)\<close> never cancels: as long as every \<open>Close\<close> call was graceful, and
  also whenever the call that runs the shutdown is graceful, whatever the other calls
  are, the pool has not cancelled the context. A \<open>Close\<close> call that finds the pool
  closed returns at the guard and leaves the count as it is, whatever its argument.
\<close>

theorem close_cancels_unless_graceful:
  assumes "run_from opts es = Some g"
  shows "(c < length (closers g) \<and> c_past (c_stage (closers g ! c)) \<and>
          \<not> c_grace (closers g ! c) \<longrightarrow> cancels g = 1) \<and>
         (list_all c_grace (closers g) \<longrightarrow> cancels g = 0) \<and>
         (c < length (closers g) \<and> c_performs (c_stage (closers g ! c)) \<and>
          c_grace (closers g ! c) \<longrightarrow> cancels g = 0) \<and>
         int (cancels g) = cnt (\<lambda>x. c_past (c_stage x) \<and> \<not> c_grace x) (closers g) \<and>
         (closer_at c C_Guard g \<and> closed g \<longrightarrow>
            (case step (Guard c) g of
               None \<Rightarrow> False
             | Some g' \<Rightarrow> cancels g' = cancels g \<and>
                 c_stage (closers g' ! c) = C_Returned False))"
proof -
  from assms have "pool_inv g" by (rule inv_run_from)
  then have ic: "inv_close g" by (simp add: pool_inv_def)
  then have n: "int (cancels g) = cnt (\<lambda>x. c_past (c_stage x) \<and> \<not> c_grace x) (closers g)"
    by (simp add: inv_close_def)
  from ic have le: "cancels g \<le> 1" by (rule cancels_le_one)
  have forced: "cancels g = 1"
    if "c < length (closers g)" "c_past (c_stage (closers g ! c))" "\<not> c_grace (closers g ! c)"
  proof -
    from that have "1 \<le> cnt (\<lambda>x. c_past (c_stage x) \<and> \<not> c_grace x) (closers g)"
      by (auto intro!: cnt_pos [of c])
    with n le show ?thesis by simp
  qed
  have graceful: "cancels g = 0" if "list_all c_grace (closers g)"
  proof -
    from that have "cnt (\<lambda>x. c_past (c_stage x) \<and> \<not> c_grace x) (closers g) = 0"
      by (intro cnt_zeroI) (simp add: list_all_iff)
    with n show ?thesis by simp
  qed
  have performer: "cancels g = 0"
    if "c < length (closers g)" "c_performs (c_stage (closers g ! c))" "c_grace (closers g ! c)"
  proof -
    have sub: "c_performs (c_stage x)" if "c_past (c_stage x) \<and> \<not> c_grace x" for x
      using that by (cases "c_stage x") simp_all
    from \<open>c < length (closers g)\<close> \<open>c_performs (c_stage (closers g ! c))\<close>
      \<open>c_grace (closers g ! c)\<close>
    have "cnt (\<lambda>x. c_past (c_stage x) \<and> \<not> c_grace x) (closers g) + 1
          \<le> cnt (\<lambda>x. c_performs (c_stage x)) (closers g)"
      by (intro cnt_strict [of c]) (simp_all add: sub)
    with performers_le_one [OF ic] n have "int (cancels g) \<le> 0" by linarith
    then show ?thesis by simp
  qed
  have guard: "case step (Guard c) g of
               None \<Rightarrow> False
             | Some g' \<Rightarrow> cancels g' = cancels g \<and>
                 c_stage (closers g' ! c) = C_Returned False"
    if "closer_at c C_Guard g" "closed g"
    using that by (simp add: ev_Guard_def set_closer_def closer_at_def)
  from forced graceful performer n guard show ?thesis by blast
qed

theorem close_cancels_unless_graceful_witness:
  "run_from []
     [CallClose False, Lock 0, Guard 0, ClosePending 0, CloseTokens 0, Cancel 0, WaitReturn 0]
     = Some forced_pool \<and>
   0 < length (closers forced_pool) \<and> c_past (c_stage (closers forced_pool ! 0)) \<and>
   \<not> c_grace (closers forced_pool ! 0) \<and> cancels forced_pool = 1 \<and>
   run_from []
     [CallClose True, Lock 0, Guard 0, ClosePending 0, CloseTokens 0, Cancel 0, WaitReturn 0]
     = Some graceful_pool \<and>
   list_all c_grace (closers graceful_pool) \<and> cancels graceful_pool = 0 \<and>
   run_from []
     [CallClose True, Lock 0, Guard 0, ClosePending 0, CloseTokens 0, Cancel 0, WaitReturn 0,
      CallClose False, Lock 1, Guard 1] = Some mixed_pool \<and>
   0 < length (closers mixed_pool) \<and> c_performs (c_stage (closers mixed_pool ! 0)) \<and>
   c_grace (closers mixed_pool ! 0) \<and> cancels mixed_pool = 0 \<and>
   run_from []
     [CallClose True, Lock 0, Guard 0, ClosePending 0, CloseTokens 0, Cancel 0,
      CallClose False, Lock 1] = Some twice_pool \<and>
   closer_at 1 C_Guard twice_pool \<and> closed twice_pool \<and>
   (case step (Guard 1) twice_pool of
      None \<Rightarrow> False
    | Some g' \<Rightarrow> cancels g' = cancels twice_pool \<and>
        c_stage (closers g' ! 1) = C_Returned False)"
proof -
  have r1: "run_from []
     [CallClose False, Lock 0, Guard 0, ClosePending 0, CloseTokens 0, Cancel 0, WaitReturn 0]
     = Some forced_pool"
    by (simp add: eval_defs forced_pool_def)
  have h1: "0 < length (closers forced_pool)" "c_past (c_stage (closers forced_pool ! 0))"
     "\<not> c_grace (closers forced_pool ! 0)"
    by (simp_all add: forced_pool_def)
  have r2: "run_from []
     [CallClose True, Lock 0, Guard 0, ClosePending 0, CloseTokens 0, Cancel 0, WaitReturn 0]
     = Some graceful_pool"
    by (simp add: eval_defs graceful_pool_def)
  have h2: "list_all c_grace (closers graceful_pool)"
    by (simp add: graceful_pool_def)
  have r3: "run_from []
     [CallClose True, Lock 0, Guard 0, ClosePending 0, CloseTokens 0, Cancel 0, WaitReturn 0,
      CallClose False, Lock 1, Guard 1] = Some mixed_pool"
    by (simp add: eval_defs mixed_pool_def)
  have h3: "0 < length (closers mixed_pool)" "c_performs (c_stage (closers mixed_pool ! 0))"
    "c_grace (closers mixed_pool ! 0)"
    by (simp_all add: mixed_pool_def)
  have r4: "run_from []
     [CallClose True, Lock 0, Guard 0, ClosePending 0, CloseTokens 0, Cancel 0,
      CallClose False, Lock 1] = Some twice_pool"
    by (simp add: eval_defs twice_pool_def)
  have h4: "closer_at 1 C_Guard twice_pool" "closed twice_pool"
    by (simp_all add: twice_pool_def closer_at_def)
  from close_cancels_unless_graceful [OF r1, where c = 0] h1
  have a1: "cancels forced_pool = 1" by blast
  from close_cancels_unless_graceful [OF r2, where c = 0] h2
  have a2: "cancels graceful_pool = 0" by blast
  from close_cancels_unless_graceful [OF r3, where c = 0] h3
  have a3: "cancels mixed_pool = 0" by blast
  from close_cancels_unless_graceful [OF r4, where c = 1] h4
  have a4: "case step (Guard 1) twice_pool of
      None \<Rightarrow> False
    | Some g' \<Rightarrow> cancels g' = cancels twice_pool \<and>
        c_stage (closers g' ! 1) = C_Returned False"
    by blast
  from r1 h1 a1 r2 h2 a2 r3 h3 a3 r4 h4 a4 show ?thesis by (intro conjI)
qed

text \<open>
  A \<open>Close(false)\<close> does not always cancel: after a \<open>Close(true)\<close> has shut the pool
  down, a call of \<open>Close(false)\<close> finds \<open>closed\<close> set and returns, and the shared
  context has not been cancelled.
\<close>

theorem close_false_no_cancel_counterexample:
  "run_from []
     [CallClose True, Lock 0, Guard 0, ClosePending 0, CloseTokens 0, Cancel 0, WaitReturn 0,
      CallClose False, Lock 1, Guard 1] = Some mixed_pool \<and>
   c_stage (closers mixed_pool ! 1) = C_Returned False \<and>
   \<not> c_grace (closers mixed_pool ! 1) \<and>
   cancels mixed_pool = 0"
  by (simp add: eval_defs mixed_pool_def)

text \<open>
  C6. In every state of every schedule, with any number of \<open>Close\<close> calls, at most one
  call has passed the guard and runs the shutdown, exactly one once \<open>closed\<close> is set; no
  \<open>Close\<close> call has panicked (closing a closed channel would panic); the context has
  been cancelled at most once. A call that holds the mutex and finds \<open>closed\<close> set
  unlocks and returns, and nothing else of the pool changes.
\<close>

theorem close_twice_is_noop:
  assumes "run_from opts es = Some g"
  shows "performers g = of_bool (closed g) \<and>
         cnt (\<lambda>x. c_crashed (c_stage x)) (closers g) = 0 \<and>
         cancels g \<le> 1 \<and>
         (closer_at c C_Guard g \<and> closed g \<longrightarrow>
            step (Guard c) g = Some (set_closer c (C_Returned False) (g\<lparr>locked := False\<rparr>)))"
proof -
  from assms have "pool_inv g" by (rule inv_run_from)
  then have ic: "inv_close g" by (simp add: pool_inv_def)
  then have p: "performers g = of_bool (closed g)"
    and x: "cnt (\<lambda>x. c_crashed (c_stage x)) (closers g) = 0"
    by (simp_all add: inv_close_def performers_def)
  from ic have le: "cancels g \<le> 1" by (rule cancels_le_one)
  have "step (Guard c) g = Some (set_closer c (C_Returned False) (g\<lparr>locked := False\<rparr>))"
    if "closer_at c C_Guard g" "closed g"
    using that by (simp add: ev_Guard_def)
  with p x le show ?thesis by blast
qed

theorem close_twice_is_noop_witness:
  "run_from []
     [CallClose True, Lock 0, Guard 0, ClosePending 0, CloseTokens 0, Cancel 0,
      CallClose False, Lock 1] = Some twice_pool \<and>
   performers twice_pool = of_bool (closed twice_pool) \<and>
   cnt (\<lambda>x. c_crashed (c_stage x)) (closers twice_pool) = 0 \<and>
   cancels twice_pool \<le> 1 \<and>
   closer_at 1 C_Guard twice_pool \<and> closed twice_pool \<and>
   step (Guard 1) twice_pool =
     Some (set_closer 1 (C_Returned False) (twice_pool\<lparr>locked := False\<rparr>))"
proof -
  have r: "run_from []
     [CallClose True, Lock 0, Guard 0, ClosePending 0, CloseTokens 0, Cancel 0,
      CallClose False, Lock 1] = Some twice_pool"
    by (simp add: eval_defs twice_pool_def)
  have h: "closer_at 1 C_Guard twice_pool \<and> closed twice_pool"
    by (simp add: twice_pool_def closer_at_def)
  from close_twice_is_noop [OF r, of 1] r h show ?thesis by simp
qed

text \<open>
  C7. A worker waiting at its \<open>select\<close> (line 66). Its timer is either armed or has
  expired with the expiry still in the channel, so lines 74 to 77 never block and leave
  the timer armed with an empty channel: \<open>Stop\<close> stops an armed timer, and when \<open>Stop\<close>
  reports false the expiry is drained before \<open>Reset\<close>. When the timer has expired and the
  worker takes \<open>case <-timer.C\<close>, it leaves the loop, gives one token back, decrements
  the wait counter by one and exits. When instead a caller of \<open>Execute\<close> hands it a
  task, it stands before the call of that task with the timer re-armed. (Durations are
  not modelled: the timer is created when the worker starts and re-armed at each
  handoff, and may expire at any time while armed.)
\<close>

theorem idle_worker_times_out:
  assumes "run_from opts es = Some g" and "worker_at w W_Select g"
  shows "rearm (w_timer (workers g ! w)) = Some (Timer True False) \<and>
         (expired (w_timer (workers g ! w)) \<longrightarrow>
            (case run [Timeout w, Release w, WgDone w, Recover w] g of
               None \<Rightarrow> False
             | Some g' \<Rightarrow> w_stage (workers g' ! w) = W_Exited \<and>
                 int (tokens g') = int (tokens g) - 1 \<and> wait g' = wait g - 1)) \<and>
         (sub_at i E_Select g \<and> e_f (subs g ! i) \<noteq> NilFunc \<and> \<not> pending_closed g \<longrightarrow>
            (case step (Handoff i w) g of
               None \<Rightarrow> False
             | Some g' \<Rightarrow> workers g' ! w =
                 \<lparr>w_stage = W_Call, w_origin = i, w_f = e_f (subs g ! i),
                  w_timer = Timer True False\<rparr>))"
proof -
  from assms(1) have inv: "pool_inv g" by (rule inv_run_from)
  from assms(2) have at: "w < length (workers g)" "w_stage (workers g ! w) = W_Select"
    by (simp_all add: worker_at_def)
  from inv at have tm: "running (w_timer (workers g ! w)) \<noteq> expired (w_timer (workers g ! w))"
    by (auto simp: pool_inv_def inv_timer_def)
  then have re: "rearm (w_timer (workers g ! w)) = Some (Timer True False)"
    by (rule rearm_ok)
  have timeout: "case run [Timeout w, Release w, WgDone w, Recover w] g of
               None \<Rightarrow> False
             | Some g' \<Rightarrow> w_stage (workers g' ! w) = W_Exited \<and>
                 int (tokens g') = int (tokens g) - 1 \<and> wait g' = wait g - 1"
    if ex: "expired (w_timer (workers g ! w))"
  proof -
    define g1 where "g1 = set_worker w
        (unwind None ((workers g ! w)\<lparr>w_timer := Timer (running (w_timer (workers g ! w))) False\<rparr>)) g"
    from assms(2) ex have s: "step (Timeout w) g = Some g1"
      by (simp add: ev_Timeout_def timer_recv_def g1_def)
    from at have g1: "w < length (workers g1)" "w_stage (workers g1 ! w) = W_Token None"
      "tokens g1 = tokens g" "wait g1 = wait g"
      by (simp_all add: g1_def set_worker_def unwind_def)
    from exit_chain [OF inv s g1(1,2)] g1(3,4) show ?thesis
      by (auto simp: doRecover_def)
  qed
  have handoff: "case step (Handoff i w) g of
               None \<Rightarrow> False
             | Some g' \<Rightarrow> workers g' ! w =
                 \<lparr>w_stage = W_Call, w_origin = i, w_f = e_f (subs g ! i),
                  w_timer = Timer True False\<rparr>"
    if "sub_at i E_Select g" "e_f (subs g ! i) \<noteq> NilFunc" "\<not> pending_closed g"
    using that assms(2) at re
    by (simp add: ev_Handoff_def Let_def set_worker_def set_sub_def)
  from re timeout handoff show ?thesis by blast
qed

theorem idle_worker_times_out_witness:
  "run_from [WithConcurrent 1]
     [CallExecute (Fn None), Acquire 0, WgAdd 0, Go 0, Invoke 0, Finish 0, Fire 0,
      CallExecute (Fn None)] = Some idle_pool \<and>
   worker_at 0 W_Select idle_pool \<and>
   rearm (w_timer (workers idle_pool ! 0)) = Some (Timer True False) \<and>
   expired (w_timer (workers idle_pool ! 0)) \<and>
   (case run [Timeout 0, Release 0, WgDone 0, Recover 0] idle_pool of
      None \<Rightarrow> False
    | Some g' \<Rightarrow> w_stage (workers g' ! 0) = W_Exited \<and>
        int (tokens g') = int (tokens idle_pool) - 1 \<and> wait g' = wait idle_pool - 1) \<and>
   sub_at 1 E_Select idle_pool \<and> e_f (subs idle_pool ! 1) \<noteq> NilFunc \<and>
   \<not> pending_closed idle_pool \<and>
   (case step (Handoff 1 0) idle_pool of
      None \<Rightarrow> False
    | Some g' \<Rightarrow> workers g' ! 0 =
        \<lparr>w_stage = W_Call, w_origin = 1, w_f = e_f (subs idle_pool ! 1),
         w_timer = Timer True False\<rparr>)"
proof -
  have r: "run_from [WithConcurrent 1]
     [CallExecute (Fn None), Acquire 0, WgAdd 0, Go 0, Invoke 0, Finish 0, Fire 0,
      CallExecute (Fn None)] = Some idle_pool"
    by (simp add: eval_defs idle_pool_def)
  have h: "worker_at 0 W_Select idle_pool" "expired (w_timer (workers idle_pool ! 0))"
    "sub_at 1 E_Select idle_pool" "e_f (subs idle_pool ! 1) \<noteq> NilFunc"
    "\<not> pending_closed idle_pool"
    by (simp_all add: idle_pool_def worker_at_def sub_at_def)
  from idle_worker_times_out [OF r h(1), of 1] r h show ?thesis by simp
qed




text \<open>
  C9. Whatever step takes a worker out of its loop (the stages before the call, inside
  the body and at the \<open>select\<close>): the expiry of the idle timer, a nil func or the closed
  \<open>pending\<close> channel, a panic of the task or of the call of a nil func; the worker then
  stands before its deferred calls, and these run: it takes exactly one token out of the
  channel, decrements the wait counter exactly once, and \<open>loop\<close> returns; it returns with
  a panic only when the configured handler panicked in \<open>doRecover\<close>, which runs after
  the token and the counter have been given back. Afterwards the tokens in the channel are
  again exactly those of the remaining holders, and the wait counter counts exactly the
  remaining workers, so no capacity is lost and \<open>Close\<close> does not wait for a worker
  that is gone.
\<close>

theorem loop_exit_releases:
  assumes "run_from opts es = Some g" and "step e g = Some g1" and "w < length (workers g)"
    and "w_looping (w_stage (workers g ! w))" and "\<not> w_looping (w_stage (workers g1 ! w))"
  shows "case run [Release w, WgDone w, Recover w] g1 of
           None \<Rightarrow> False
         | Some g' \<Rightarrow>
             (case w_stage (workers g' ! w) of
                W_Exited \<Rightarrow> True
              | W_Crashed q \<Rightarrow>
                  (case recoverFunc g' of
                     None \<Rightarrow> False
                   | Some h \<Rightarrow> \<exists>p. p \<noteq> NilValue \<and> h p = Some q)
              | _ \<Rightarrow> False) \<and>
             int (tokens g') = int (tokens g1) - 1 \<and> wait g' = wait g1 - 1 \<and>
             int (tokens g') = spawning g' + holders g' \<and>
             wait g' = cnt (\<lambda>x. e_stage x = E_Go) (subs g') + live_workers g'"
proof -
  from assms(1) have inv: "pool_inv g" by (rule inv_run_from)
  then have it: "inv_timer g" by (simp add: pool_inv_def)
  from inv assms(2) have inv1: "pool_inv g1" by (rule inv_step)
  from leave_loop [OF it assms(2-5)] obtain r where st: "w_stage (workers g1 ! w) = W_Token r"
    by blast
  from step_workers_length [OF assms(2)] assms(3) have len: "w < length (workers g1)"
    by simp
  from defers_run [OF inv1 len st] obtain g' where
    r: "run [Release w, WgDone w, Recover w] g1 = Some g'" and
    rest: "w_stage (workers g' ! w) =
             (case fst (doRecover (recoverFunc g1) r (handled g1)) of
                None \<Rightarrow> W_Exited | Some q \<Rightarrow> W_Crashed q)"
      "int (tokens g') = int (tokens g1) - 1" "wait g' = wait g1 - 1"
      "length (workers g') = length (workers g1)"
    by blast
  from inv1 r have inv': "pool_inv g'" by (rule inv_run)
  then have eqs: "int (tokens g') = spawning g' + holders g'"
    "wait g' = cnt (\<lambda>x. e_stage x = E_Go) (subs g') + live_workers g'"
    by (simp_all add: pool_inv_def inv_tokens_def token_holders_def inv_wait_def
          spawning_def holders_def live_workers_def)
  from inv' have ic: "inv_crash g'" by (simp add: pool_inv_def)
  from len rest(4) have len': "w < length (workers g')" by simp
  have "case w_stage (workers g' ! w) of
                W_Exited \<Rightarrow> True
              | W_Crashed q \<Rightarrow>
                  (case recoverFunc g' of
                     None \<Rightarrow> False
                   | Some h \<Rightarrow> \<exists>p. p \<noteq> NilValue \<and> h p = Some q)
              | _ \<Rightarrow> False"
  proof (cases "fst (doRecover (recoverFunc g1) r (handled g1))")
    case None
    with rest(1) show ?thesis by simp
  next
    case (Some q)
    with rest(1) have c: "w_stage (workers g' ! w) = W_Crashed q" by simp
    with ic len' have "case recoverFunc g' of
                     None \<Rightarrow> False
                   | Some h \<Rightarrow> \<exists>p. p \<noteq> NilValue \<and> h p = Some q"
      unfolding inv_crash_def by blast
    with c show ?thesis by simp
  qed
  with r rest(2,3) eqs show ?thesis by simp
qed

theorem loop_exit_releases_witness:
  "run_from [WithConcurrent 1, WithRecover (Some logging_handler)]
     [CallExecute (Fn (Some (User 7))), Acquire 0, WgAdd 0, Go 0, Invoke 0]
     = Some panicking_pool \<and>
   step (Finish 0) panicking_pool = Some unwinding_pool \<and>
   0 < length (workers panicking_pool) \<and>
   w_looping (w_stage (workers panicking_pool ! 0)) \<and>
   \<not> w_looping (w_stage (workers unwinding_pool ! 0)) \<and>
   (case run [Release 0, WgDone 0, Recover 0] unwinding_pool of
      None \<Rightarrow> False
    | Some g' \<Rightarrow>
        (case w_stage (workers g' ! 0) of
           W_Exited \<Rightarrow> True
         | W_Crashed q \<Rightarrow>
             (case recoverFunc g' of
                None \<Rightarrow> False
              | Some h \<Rightarrow> \<exists>p. p \<noteq> NilValue \<and> h p = Some q)
         | _ \<Rightarrow> False) \<and>
        int (tokens g') = int (tokens unwinding_pool) - 1 \<and> wait g' = wait unwinding_pool - 1 \<and>
        int (tokens g') = spawning g' + holders g' \<and>
        wait g' = cnt (\<lambda>x. e_stage x = E_Go) (subs g') + live_workers g')"
proof -
  have r: "run_from [WithConcurrent 1, WithRecover (Some logging_handler)]
     [CallExecute (Fn (Some (User 7))), Acquire 0, WgAdd 0, Go 0, Invoke 0]
     = Some panicking_pool"
    by (simp add: eval_defs panicking_pool_def)
  have s: "step (Finish 0) panicking_pool = Some unwinding_pool"
    by (simp add: eval_defs panicking_pool_def unwinding_pool_def)
  have h: "0 < length (workers panicking_pool)"
    "w_looping (w_stage (workers panicking_pool ! 0))"
    "\<not> w_looping (w_stage (workers unwinding_pool ! 0))"
    by (simp_all add: panicking_pool_def unwinding_pool_def)
  from loop_exit_releases [OF r s h] r s h show ?thesis by blast
qed

text \<open>
  C10. The body of a nil task is never started, in no state of any schedule (a nil func
  handed over makes the worker return at line 70; a nil func given to a new worker panics
  at the call, before any body). When \<open>Execute(nil)\<close> hands the nil func to a worker
  waiting at its \<open>select\<close>, \<open>Execute\<close> returns the pool and the worker leaves its loop,
  gives its token back, decrements the wait counter and exits; no body is started and the
  handler is not called.
\<close>

theorem nil_task_never_runs:
  assumes "run_from opts es = Some g" and "i < length (subs g)"
    and "e_f (subs g ! i) = NilFunc"
  shows "count_list (started g) i = 0 \<and>
         (e_stage (subs g ! i) = E_Select \<and> worker_at w W_Select g \<and> \<not> pending_closed g \<longrightarrow>
            (case run [Handoff i w, Release w, WgDone w, Recover w] g of
               None \<Rightarrow> False
             | Some g' \<Rightarrow> w_stage (workers g' ! w) = W_Exited \<and>
                 e_stage (subs g' ! i) = E_Returned RetPool \<and>
                 started g' = started g \<and> handled g' = handled g \<and>
                 int (tokens g') = int (tokens g) - 1 \<and> wait g' = wait g - 1))"
proof -
  from assms(1) have inv: "pool_inv g" by (rule inv_run_from)
  from assms(3) have "\<not> accepted i g" by (simp add: accepted_def)
  with pool_inv_once [OF inv, of i] have "int (count_list (started g) i) + holding i g = 0"
    by simp
  moreover have "0 \<le> holding i g" by (simp add: holding_def)
  ultimately have never: "count_list (started g) i = 0" by linarith
  have handoff: "case run [Handoff i w, Release w, WgDone w, Recover w] g of
               None \<Rightarrow> False
             | Some g' \<Rightarrow> w_stage (workers g' ! w) = W_Exited \<and>
                 e_stage (subs g' ! i) = E_Returned RetPool \<and>
                 started g' = started g \<and> handled g' = handled g \<and>
                 int (tokens g') = int (tokens g) - 1 \<and> wait g' = wait g - 1"
    if sel: "e_stage (subs g ! i) = E_Select" and wat: "worker_at w W_Select g"
      and op: "\<not> pending_closed g"
  proof -
    define g1 where
      "g1 = set_worker w (unwind None (workers g ! w)) (set_sub i (E_Returned RetPool) g)"
    from sel wat op assms(2,3) have s: "step (Handoff i w) g = Some g1"
      by (simp add: ev_Handoff_def sub_at_def Let_def g1_def set_sub_def)
    from wat assms(2) have g1: "w < length (workers g1)" "w_stage (workers g1 ! w) = W_Token None"
      "tokens g1 = tokens g" "wait g1 = wait g" "started g1 = started g" "handled g1 = handled g"
      "e_stage (subs g1 ! i) = E_Returned RetPool"
      by (simp_all add: g1_def set_worker_def set_sub_def unwind_def worker_at_def)
    from exit_chain [OF inv s g1(1,2)] g1(3-7) show ?thesis
      by (auto simp: doRecover_def)
  qed
  from never handoff show ?thesis by blast
qed

theorem nil_task_never_runs_witness:
  "run_from [WithConcurrent 1]
     [CallExecute (Fn None), Acquire 0, WgAdd 0, Go 0, Invoke 0, Finish 0, CallExecute NilFunc]
     = Some idle_nil_pool \<and>
   1 < length (subs idle_nil_pool) \<and> e_f (subs idle_nil_pool ! 1) = NilFunc \<and>
   count_list (started idle_nil_pool) 1 = 0 \<and>
   e_stage (subs idle_nil_pool ! 1) = E_Select \<and> worker_at 0 W_Select idle_nil_pool \<and>
   \<not> pending_closed idle_nil_pool \<and>
   (case run [Handoff 1 0, Release 0, WgDone 0, Recover 0] idle_nil_pool of
      None \<Rightarrow> False
    | Some g' \<Rightarrow> w_stage (workers g' ! 0) = W_Exited \<and>
        e_stage (subs g' ! 1) = E_Returned RetPool \<and>
        started g' = started idle_nil_pool \<and> handled g' = handled idle_nil_pool \<and>
        int (tokens g') = int (tokens idle_nil_pool) - 1 \<and> wait g' = wait idle_nil_pool - 1)"
proof -
  have r: "run_from [WithConcurrent 1]
     [CallExecute (Fn None), Acquire 0, WgAdd 0, Go 0, Invoke 0, Finish 0, CallExecute NilFunc]
     = Some idle_nil_pool"
    by (simp add: eval_defs idle_nil_pool_def)
  have h: "1 < length (subs idle_nil_pool)" "e_f (subs idle_nil_pool ! 1) = NilFunc"
    "e_stage (subs idle_nil_pool ! 1) = E_Select" "worker_at 0 W_Select idle_nil_pool"
    "\<not> pending_closed idle_nil_pool"
    by (simp_all add: idle_nil_pool_def worker_at_def)
  from nil_task_never_runs [OF r h(1,2), of 0] r h show ?thesis by simp
qed

end
